theory Spec2Isabelle
  imports Complex_Main
begin

section \<open>Characters and strings\<close>

text \<open>
  The interpreter of \<^verbatim>\<open>nanLanguage.cpp\<close> works on \<^verbatim>\<open>std::string\<close> values, modelled
  as \<^typ>\<open>string\<close> (lists of 8-bit characters). The character classes are those of
  \<^verbatim>\<open>cctype\<close> in the default "C" locale, given by character codes.
\<close>

definition isspace :: "char \<Rightarrow> bool" where
  "isspace c = (let n = (of_char c :: nat) in n = 32 \<or> (9 \<le> n \<and> n \<le> 13))"

definition isdigit :: "char \<Rightarrow> bool" where
  "isdigit c = (let n = (of_char c :: nat) in 48 \<le> n \<and> n \<le> 57)"

definition isalpha :: "char \<Rightarrow> bool" where
  "isalpha c = (let n = (of_char c :: nat) in (65 \<le> n \<and> n \<le> 90) \<or> (97 \<le> n \<and> n \<le> 122))"

definition isalnum :: "char \<Rightarrow> bool" where
  "isalnum c = (isalpha c \<or> isdigit c)"

abbreviation newline :: char where
  "newline \<equiv> CHR 0x0A"

abbreviation quote :: char where
  "quote \<equiv> CHR 0x27"

abbreviation dquote :: char where
  "dquote \<equiv> CHR 0x22"

text \<open>\<^verbatim>\<open>ltrim\<close>, \<^verbatim>\<open>rtrim\<close> and \<^verbatim>\<open>trim\<close> of the source.\<close>

definition ltrim :: "string \<Rightarrow> string" where
  "ltrim s = dropWhile isspace s"

definition rtrim :: "string \<Rightarrow> string" where
  "rtrim s = rev (dropWhile isspace (rev s))"

definition trim :: "string \<Rightarrow> string" where
  "trim s = rtrim (ltrim s)"

text \<open>\<^verbatim>\<open>line.rfind(t, 0) == 0\<close>: the string starts with \<open>t\<close>.\<close>

definition starts_with :: "string \<Rightarrow> string \<Rightarrow> bool" where
  "starts_with t s = (take (length t) s = t)"

section \<open>Values of type double\<close>

text \<open>
  A \<^verbatim>\<open>double\<close> is modelled as a real number or one of the three special values of
  IEEE 754. Arithmetic on finite values is exact in the model: rounding, overflow to
  infinity, underflow and the sign of zero are outside it. Division and remainder by zero
  are not guarded in the source and give an infinity or a NaN, as the hardware does.
\<close>

datatype double = Num real | PInf | NInf | NaN

fun dneg :: "double \<Rightarrow> double" where
  "dneg (Num x) = Num (- x)"
| "dneg PInf = NInf"
| "dneg NInf = PInf"
| "dneg NaN = NaN"

fun dadd :: "double \<Rightarrow> double \<Rightarrow> double" where
  "dadd NaN _ = NaN"
| "dadd _ NaN = NaN"
| "dadd PInf NInf = NaN"
| "dadd NInf PInf = NaN"
| "dadd PInf _ = PInf"
| "dadd NInf _ = NInf"
| "dadd _ PInf = PInf"
| "dadd _ NInf = NInf"
| "dadd (Num x) (Num y) = Num (x + y)"

definition dsub :: "double \<Rightarrow> double \<Rightarrow> double" where
  "dsub a b = dadd a (dneg b)"

text \<open>The sign of a value, for the rules of multiplication and division: 1, -1 or 0.\<close>

fun dsign :: "double \<Rightarrow> int" where
  "dsign (Num x) = (if 0 < x then 1 else if x < 0 then - 1 else 0)"
| "dsign PInf = 1"
| "dsign NInf = - 1"
| "dsign NaN = 0"

definition inf_of_sign :: "int \<Rightarrow> double" where
  "inf_of_sign k = (if 0 < k then PInf else if k < 0 then NInf else NaN)"

fun dmul :: "double \<Rightarrow> double \<Rightarrow> double" where
  "dmul NaN _ = NaN"
| "dmul _ NaN = NaN"
| "dmul (Num x) (Num y) = Num (x * y)"
| "dmul a b = inf_of_sign (dsign a * dsign b)"

fun ddiv :: "double \<Rightarrow> double \<Rightarrow> double" where
  "ddiv NaN _ = NaN"
| "ddiv _ NaN = NaN"
| "ddiv (Num x) (Num y) =
     (if y = 0 then inf_of_sign (dsign (Num x)) else Num (x / y))"
| "ddiv (Num x) _ = Num 0"
| "ddiv a (Num y) = inf_of_sign (dsign a * (if y < 0 then - 1 else 1))"
| "ddiv _ _ = NaN"

text \<open>Rounding toward zero, and \<^verbatim>\<open>std::fmod\<close>: the remainder has the sign of the dividend.\<close>

definition rtrunc :: "real \<Rightarrow> int" where
  "rtrunc x = (if 0 \<le> x then \<lfloor>x\<rfloor> else \<lceil>x\<rceil>)"

fun dfmod :: "double \<Rightarrow> double \<Rightarrow> double" where
  "dfmod NaN _ = NaN"
| "dfmod _ NaN = NaN"
| "dfmod (Num x) (Num y) = (if y = 0 then NaN else Num (x - y * of_int (rtrunc (x / y))))"
| "dfmod (Num x) _ = Num x"
| "dfmod _ _ = NaN"

text \<open>The comparison operators of C++ on doubles: every comparison with a NaN is false,
  except \<^verbatim>\<open>!=\<close>, which is true.\<close>

fun dlt :: "double \<Rightarrow> double \<Rightarrow> bool" where
  "dlt NaN _ = False"
| "dlt _ NaN = False"
| "dlt (Num x) (Num y) = (x < y)"
| "dlt PInf _ = False"
| "dlt _ NInf = False"
| "dlt _ _ = True"

definition deq :: "double \<Rightarrow> double \<Rightarrow> bool" where
  "deq a b = (a \<noteq> NaN \<and> a = b)"

definition dne :: "double \<Rightarrow> double \<Rightarrow> bool" where
  "dne a b = (\<not> deq a b)"

definition dgt :: "double \<Rightarrow> double \<Rightarrow> bool" where
  "dgt a b = dlt b a"

definition dle :: "double \<Rightarrow> double \<Rightarrow> bool" where
  "dle a b = (dlt a b \<or> deq a b)"

definition dge :: "double \<Rightarrow> double \<Rightarrow> bool" where
  "dge a b = dle b a"

text \<open>The functions of \<^verbatim>\<open>cmath\<close> that the interpreter calls, with the special cases of
  the C standard (Annex F).\<close>

fun dsqrt :: "double \<Rightarrow> double" where
  "dsqrt (Num x) = (if x < 0 then NaN else Num (sqrt x))"
| "dsqrt PInf = PInf"
| "dsqrt _ = NaN"

fun dsin :: "double \<Rightarrow> double" where
  "dsin (Num x) = Num (sin x)"
| "dsin _ = NaN"

fun dcos :: "double \<Rightarrow> double" where
  "dcos (Num x) = Num (cos x)"
| "dcos _ = NaN"

fun dtan :: "double \<Rightarrow> double" where
  "dtan (Num x) = Num (tan x)"
| "dtan _ = NaN"

fun dfabs :: "double \<Rightarrow> double" where
  "dfabs (Num x) = Num \<bar>x\<bar>"
| "dfabs NaN = NaN"
| "dfabs _ = PInf"

fun dlog :: "double \<Rightarrow> double" where
  "dlog (Num x) = (if x < 0 then NaN else if x = 0 then NInf else Num (ln x))"
| "dlog PInf = PInf"
| "dlog _ = NaN"

fun dexp :: "double \<Rightarrow> double" where
  "dexp (Num x) = Num (exp x)"
| "dexp PInf = PInf"
| "dexp NInf = Num 0"
| "dexp NaN = NaN"

fun dfloor :: "double \<Rightarrow> double" where
  "dfloor (Num x) = Num (of_int \<lfloor>x\<rfloor>)"
| "dfloor v = v"

fun dceil :: "double \<Rightarrow> double" where
  "dceil (Num x) = Num (of_int \<lceil>x\<rceil>)"
| "dceil v = v"

text \<open>\<^verbatim>\<open>std::round\<close> rounds halfway cases away from zero.\<close>

fun dround :: "double \<Rightarrow> double" where
  "dround (Num x) = Num (of_int (if 0 \<le> x then \<lfloor>x + 1 / 2\<rfloor> else \<lceil>x - 1 / 2\<rceil>))"
| "dround v = v"

definition is_int :: "real \<Rightarrow> bool" where
  "is_int y = (of_int \<lfloor>y\<rfloor> = y)"

definition is_odd_int :: "real \<Rightarrow> bool" where
  "is_odd_int y = (is_int y \<and> odd \<lfloor>y\<rfloor>)"

fun dpow :: "double \<Rightarrow> double \<Rightarrow> double" where
  "dpow (Num x) (Num y) =
     (if y = 0 then Num 1
      else if x = 0 then (if y < 0 then PInf else Num 0)
      else if 0 < x then Num (x powr y)
      else if is_int y then Num (x powi \<lfloor>y\<rfloor>)
      else NaN)"
| "dpow (Num x) PInf =
     (if \<bar>x\<bar> = 1 then Num 1 else if \<bar>x\<bar> < 1 then Num 0 else PInf)"
| "dpow (Num x) NInf =
     (if \<bar>x\<bar> = 1 then Num 1 else if \<bar>x\<bar> < 1 then PInf else Num 0)"
| "dpow (Num x) NaN = (if x = 1 then Num 1 else NaN)"
| "dpow PInf (Num y) = (if y = 0 then Num 1 else if y < 0 then Num 0 else PInf)"
| "dpow NInf (Num y) =
     (if y = 0 then Num 1
      else if y < 0 then Num 0
      else if is_odd_int y then NInf else PInf)"
| "dpow NaN (Num y) = (if y = 0 then Num 1 else NaN)"
| "dpow NaN _ = NaN"
| "dpow _ NaN = NaN"
| "dpow _ PInf = PInf"
| "dpow _ NInf = Num 0"

fun dfmin :: "double \<Rightarrow> double \<Rightarrow> double" where
  "dfmin NaN b = b"
| "dfmin a NaN = a"
| "dfmin a b = (if dlt b a then b else a)"

fun dfmax :: "double \<Rightarrow> double \<Rightarrow> double" where
  "dfmax NaN b = b"
| "dfmax a NaN = a"
| "dfmax a b = (if dlt a b then b else a)"

text \<open>
  Conversions. \<^verbatim>\<open>static_cast<int>\<close> and \<^verbatim>\<open>static_cast<long long>\<close> of a double
  truncate toward zero; the behaviour is undefined when the truncated value is not
  representable in the target type (and for infinities and NaN): the model returns
  \<open>None\<close> there. \<^verbatim>\<open>static_cast<double>\<close> of an \<^verbatim>\<open>int\<close> is exact.
\<close>

fun cast_signed :: "nat \<Rightarrow> double \<Rightarrow> int option" where
  "cast_signed w (Num x) =
     (let t = rtrunc x in if - (2 ^ (w - 1)) \<le> t \<and> t < 2 ^ (w - 1) then Some t else None)"
| "cast_signed w _ = None"

definition cast_int :: "double \<Rightarrow> int option" where
  "cast_int = cast_signed 32"

definition cast_long_long :: "double \<Rightarrow> int option" where
  "cast_long_long = cast_signed 64"

definition double_of_int :: "int \<Rightarrow> double" where
  "double_of_int i = Num (of_int i)"

text \<open>\<^verbatim>\<open>truthy\<close> of the source, and the conversion of a double to \<^verbatim>\<open>bool\<close>.\<close>

definition bool_of_double :: "double \<Rightarrow> bool" where
  "bool_of_double v = dne v (Num 0)"

definition truthy :: "double \<Rightarrow> double" where
  "truthy v = (if dne v (Num 0) then Num 1 else Num 0)"

section \<open>Reading and writing numbers\<close>

text \<open>
  \<^verbatim>\<open>std::stod\<close> converts the longest prefix of its argument that is a decimal
  floating-point literal: digits with an optional radix point, then an optional exponent
  (marker, optional sign, at least one digit). When there is no digit it throws
  \<^verbatim>\<open>std::invalid_argument\<close>, whose message is the name of the function. The value is
  exact in the model (the range error of \<^verbatim>\<open>stod\<close> is outside it).
\<close>

definition digit_val :: "char \<Rightarrow> nat" where
  "digit_val c = of_char c - 48"

definition digits_val :: "string \<Rightarrow> nat" where
  "digits_val ds = foldl (\<lambda>a c. 10 * a + digit_val c) 0 ds"

text \<open>An exponent part at the start of the input: the marker, an optional sign and at
  least one digit. The result is the text of the exponent part and the input after it.\<close>

definition scan_exponent :: "string \<Rightarrow> (string \<times> string) option" where
  "scan_exponent r =
     (case r of
        [] \<Rightarrow> None
      | e # r1 \<Rightarrow>
          if e = CHR ''e'' \<or> e = CHR ''E'' then
            (let sgn = (case r1 of [] \<Rightarrow> [] | c # _ \<Rightarrow> if c = CHR ''+'' \<or> c = CHR ''-'' then [c] else []);
                 r2 = drop (length sgn) r1;
                 ds = takeWhile isdigit r2
             in if ds = [] then None else Some (e # sgn @ ds, dropWhile isdigit r2))
          else None)"

text \<open>The value of an exponent part (marker included).\<close>

definition exponent_val :: "string \<Rightarrow> int" where
  "exponent_val t =
     (case tl t of
        [] \<Rightarrow> 0
      | c # ds \<Rightarrow>
          if c = CHR ''-'' then - int (digits_val ds)
          else if c = CHR ''+'' then int (digits_val ds)
          else int (digits_val (c # ds)))"

definition stod :: "string \<Rightarrow> string + double" where
  "stod t =
     (let ip = takeWhile isdigit t;
          r1 = dropWhile isdigit t;
          fp = (case r1 of [] \<Rightarrow> [] | c # r \<Rightarrow> if c = CHR ''.'' then takeWhile isdigit r else []);
          r2 = (case r1 of [] \<Rightarrow> [] | c # r \<Rightarrow> if c = CHR ''.'' then dropWhile isdigit r else r1)
      in if ip = [] \<and> fp = [] then Inl ''stod''
         else
           (let e = (case scan_exponent r2 of None \<Rightarrow> 0 | Some (ex, _) \<Rightarrow> exponent_val ex)
            in Inr (Num (real (digits_val (ip @ fp)) * 10 powi (e - int (length fp))))))"

text \<open>Insertion of a \<^verbatim>\<open>long long\<close> into the output stream: decimal digits, with a
  minus sign for a negative value.\<close>

definition digit_char :: "nat \<Rightarrow> char" where
  "digit_char d = ''0123456789'' ! d"

fun show_nat :: "nat \<Rightarrow> string" where
  "show_nat n = (if n < 10 then [digit_char n] else show_nat (n div 10) @ [digit_char (n mod 10)])"

declare show_nat.simps [simp del]

definition show_int :: "int \<Rightarrow> string" where
  "show_int i = (if i < 0 then CHR ''-'' # show_nat (nat (- i)) else show_nat (nat i))"

section \<open>The expression parser\<close>

text \<open>
  \<^verbatim>\<open>ExprParser\<close> holds the input \<^verbatim>\<open>s\<close>, the position \<^verbatim>\<open>pos\<close>, the prefix of its
  error messages and a reference to the interpreter, of which it reads the variables.
  Every method reads \<^verbatim>\<open>s\<close> from \<^verbatim>\<open>pos\<close> on and only moves \<^verbatim>\<open>pos\<close> forward, so the
  model represents the pair by the unread input \<^verbatim>\<open>s.substr(pos)\<close>: a method takes it and
  returns what is left. The scan position is the length of \<^verbatim>\<open>s\<close> minus the length of
  the unread input. An exception thrown by a method is the result \<open>Inl\<close> of its message
  (\<^verbatim>\<open>what()\<close>).
\<close>

type_synonym 'a result = "string + 'a"

type_synonym variables = "string \<rightharpoonup> double"

definition scan_pos :: "string \<Rightarrow> string \<Rightarrow> nat" where
  "scan_pos s unread = length s - length unread"

definition skipWs :: "string \<Rightarrow> string" where
  "skipWs r = dropWhile isspace r"

definition matchChar :: "char \<Rightarrow> string \<Rightarrow> bool \<times> string" where
  "matchChar c r =
     (let r1 = skipWs r
      in case r1 of [] \<Rightarrow> (False, r1) | x # xs \<Rightarrow> if x = c then (True, xs) else (False, r1))"

definition matchStr :: "string \<Rightarrow> string \<Rightarrow> bool \<times> string" where
  "matchStr t r =
     (let r1 = skipWs r; n = length t
      in if n \<le> length r1 \<and> take n r1 = t then (True, drop n r1) else (False, r1))"

definition peek :: "string \<Rightarrow> char \<times> string" where
  "peek r = (let r1 = skipWs r in case r1 of [] \<Rightarrow> (CHR 0x00, r1) | x # _ \<Rightarrow> (x, r1))"

definition fail :: "string \<Rightarrow> string \<Rightarrow> string \<Rightarrow> 'a result" where
  "fail errPrefix r msg = Inl (errPrefix @ msg @ '' near: '' @ [quote] @ r @ [quote])"

definition isword :: "char \<Rightarrow> bool" where
  "isword c = (isalnum c \<or> c = CHR ''_'')"

definition parseIdentifier :: "string \<Rightarrow> string \<times> string" where
  "parseIdentifier r =
     (let r1 = skipWs r
      in case r1 of
           [] \<Rightarrow> ([], r1)
         | x # xs \<Rightarrow>
             if \<not> (isalpha x \<or> x = CHR ''_'') then ([], r1)
             else (x # takeWhile isword xs, dropWhile isword xs))"

text \<open>
  \<^verbatim>\<open>parseNumber\<close>: \<open>scan_number\<close> is the scan of the literal, returning the characters
  consumed, the unread input and \<^verbatim>\<open>sawDigit\<close>. An exponent marker with no digit after
  its optional sign is rolled back (\<^verbatim>\<open>pos = ePos\<close>).
\<close>

definition scan_fraction :: "string \<Rightarrow> string \<times> string" where
  "scan_fraction r =
     (case r of
        [] \<Rightarrow> ([], r)
      | d # r' \<Rightarrow>
          if d = CHR ''.'' then (d # takeWhile isdigit r', dropWhile isdigit r') else ([], r))"

definition scan_exponent_part :: "string \<Rightarrow> string \<times> string" where
  "scan_exponent_part r = (case scan_exponent r of None \<Rightarrow> ([], r) | Some (t, r') \<Rightarrow> (t, r'))"

definition scan_number :: "string \<Rightarrow> string \<times> string \<times> bool" where
  "scan_number r =
     (case r of
        [] \<Rightarrow> ([], r, False)
      | c # r' \<Rightarrow>
          if c = CHR ''.'' \<or> isdigit c then
            (let dot = (if c = CHR ''.'' then [c] else []);
                 r1 = (if c = CHR ''.'' then r' else r);
                 ds1 = takeWhile isdigit r1;
                 r2 = dropWhile isdigit r1;
                 (frac, r3) = scan_fraction r2;
                 (ex, r4) = scan_exponent_part r3
             in (dot @ ds1 @ frac @ ex, r4, ds1 \<noteq> [] \<or> 1 < length frac))
          else ([], r, False))"

definition parseNumber :: "string \<Rightarrow> string \<Rightarrow> (double \<times> string) result" where
  "parseNumber errPrefix r =
     (let (lit, r1, sawDigit) = scan_number (skipWs r)
      in if lit = [] \<or> \<not> sawDigit then fail errPrefix r1 ''Expected number''
         else case stod lit of Inl e \<Rightarrow> Inl e | Inr v \<Rightarrow> Inr (v, r1))"

definition callFunction :: "string \<Rightarrow> string \<Rightarrow> string \<Rightarrow> double list \<Rightarrow> double result" where
  "callFunction errPrefix r name args =
     (if name = ''sqrt'' then
        (if length args \<noteq> 1 then fail errPrefix r ''sqrt() expects 1 arg'' else Inr (dsqrt (args ! 0)))
      else if name = ''sin'' then
        (if length args \<noteq> 1 then fail errPrefix r ''sin() expects 1 arg'' else Inr (dsin (args ! 0)))
      else if name = ''cos'' then
        (if length args \<noteq> 1 then fail errPrefix r ''cos() expects 1 arg'' else Inr (dcos (args ! 0)))
      else if name = ''tan'' then
        (if length args \<noteq> 1 then fail errPrefix r ''tan() expects 1 arg'' else Inr (dtan (args ! 0)))
      else if name = ''abs'' then
        (if length args \<noteq> 1 then fail errPrefix r ''abs() expects 1 arg'' else Inr (dfabs (args ! 0)))
      else if name = ''log'' then
        (if length args \<noteq> 1 then fail errPrefix r ''log() expects 1 arg'' else Inr (dlog (args ! 0)))
      else if name = ''exp'' then
        (if length args \<noteq> 1 then fail errPrefix r ''exp() expects 1 arg'' else Inr (dexp (args ! 0)))
      else if name = ''floor'' then
        (if length args \<noteq> 1 then fail errPrefix r ''floor() expects 1 arg'' else Inr (dfloor (args ! 0)))
      else if name = ''ceil'' then
        (if length args \<noteq> 1 then fail errPrefix r ''ceil() expects 1 arg'' else Inr (dceil (args ! 0)))
      else if name = ''pow'' then
        (if length args \<noteq> 2 then fail errPrefix r ''pow() expects 2 args''
         else Inr (dpow (args ! 0) (args ! 1)))
      else if name = ''min'' then
        (if length args \<noteq> 2 then fail errPrefix r ''min() expects 2 args''
         else Inr (dfmin (args ! 0) (args ! 1)))
      else if name = ''max'' then
        (if length args \<noteq> 2 then fail errPrefix r ''max() expects 2 args''
         else Inr (dfmax (args ! 0) (args ! 1)))
      else fail errPrefix r (''Unknown function: '' @ name))"

text \<open>
  The grammar rules. Each \<^verbatim>\<open>while (true)\<close> loop of the source is the function with the
  suffix \<open>_loop\<close>, which takes the value \<^verbatim>\<open>v\<close> accumulated so far; \<open>call_args\<close> is the
  loop of \<^verbatim>\<open>primary\<close> that collects the arguments of a function call.
\<close>

function primary :: "variables \<Rightarrow> string \<Rightarrow> string \<Rightarrow> (double \<times> string) result"
  and call_args :: "variables \<Rightarrow> string \<Rightarrow> double list \<Rightarrow> string \<Rightarrow> (double list \<times> string) result"
  and unary :: "variables \<Rightarrow> string \<Rightarrow> string \<Rightarrow> (double \<times> string) result"
  and factor :: "variables \<Rightarrow> string \<Rightarrow> string \<Rightarrow> (double \<times> string) result"
  and factor_loop :: "variables \<Rightarrow> string \<Rightarrow> double \<Rightarrow> string \<Rightarrow> (double \<times> string) result"
  and term_rule :: "variables \<Rightarrow> string \<Rightarrow> string \<Rightarrow> (double \<times> string) result"
  and term_loop :: "variables \<Rightarrow> string \<Rightarrow> double \<Rightarrow> string \<Rightarrow> (double \<times> string) result"
  and comparison :: "variables \<Rightarrow> string \<Rightarrow> string \<Rightarrow> (double \<times> string) result"
  and comparison_loop :: "variables \<Rightarrow> string \<Rightarrow> double \<Rightarrow> string \<Rightarrow> (double \<times> string) result"
  and equality :: "variables \<Rightarrow> string \<Rightarrow> string \<Rightarrow> (double \<times> string) result"
  and equality_loop :: "variables \<Rightarrow> string \<Rightarrow> double \<Rightarrow> string \<Rightarrow> (double \<times> string) result"
  and logical_and :: "variables \<Rightarrow> string \<Rightarrow> string \<Rightarrow> (double \<times> string) result"
  and logical_and_loop :: "variables \<Rightarrow> string \<Rightarrow> double \<Rightarrow> string \<Rightarrow> (double \<times> string) result"
  and logical_or :: "variables \<Rightarrow> string \<Rightarrow> string \<Rightarrow> (double \<times> string) result"
  and logical_or_loop :: "variables \<Rightarrow> string \<Rightarrow> double \<Rightarrow> string \<Rightarrow> (double \<times> string) result"
  and expr :: "variables \<Rightarrow> string \<Rightarrow> string \<Rightarrow> (double \<times> string) result"
where
  "primary vs pfx r =
     (let r0 = skipWs r; (m1, r1) = matchChar (CHR ''('') r0 in
      if m1 then
        (case expr vs pfx r1 of
           Inl e \<Rightarrow> Inl e
         | Inr (v, r2) \<Rightarrow>
             (let (m2, r3) = matchChar (CHR '')'') r2 in
              if \<not> m2 then fail pfx r3 (''Expected '' @ [quote] @ '')'' @ [quote]) else Inr (v, r3)))
      else
        (let (c, r2) = peek r1 in
         if isalpha c \<or> c = CHR ''_'' then
           (let (ident, r3) = parseIdentifier r2; r4 = skipWs r3; (m3, r5) = matchChar (CHR ''('') r4 in
            if m3 then
              (let r6 = skipWs r5; (m4, r7) = matchChar (CHR '')'') r6 in
               if \<not> m4 then
                 (case call_args vs pfx [] r7 of
                    Inl e \<Rightarrow> Inl e
                  | Inr (args, r8) \<Rightarrow>
                      (case callFunction pfx r8 ident args of Inl e \<Rightarrow> Inl e | Inr v \<Rightarrow> Inr (v, r8)))
               else
                 (case callFunction pfx r7 ident [] of Inl e \<Rightarrow> Inl e | Inr v \<Rightarrow> Inr (v, r7)))
            else
              (case vs ident of
                 Some v \<Rightarrow> Inr (v, r5)
               | None \<Rightarrow> fail pfx r5 (''Unknown variable: '' @ ident)))
         else if isdigit c \<or> c = CHR ''.'' then parseNumber pfx r2
         else fail pfx r2 ''Expected primary expression''))"
| "call_args vs pfx args r =
     (case expr vs pfx r of
        Inl e \<Rightarrow> Inl e
      | Inr (v, r1) \<Rightarrow>
          (let r2 = skipWs r1; (m1, r3) = matchChar (CHR '')'') r2 in
           if m1 then Inr (args @ [v], r3)
           else
             (let (m2, r4) = matchChar (CHR '','') r3 in
              if \<not> m2 then fail pfx r4 (''Expected '' @ [quote] @ '','' @ [quote] @ '' or '' @ [quote] @ '')'' @ [quote])
              else call_args vs pfx (args @ [v]) r4)))"
| "unary vs pfx r =
     (let r0 = skipWs r; (m1, r1) = matchChar (CHR ''+'') r0 in
      if m1 then unary vs pfx r1
      else
        (let (m2, r2) = matchChar (CHR ''-'') r1 in
         if m2 then
           (case unary vs pfx r2 of Inl e \<Rightarrow> Inl e | Inr (v, r3) \<Rightarrow> Inr (dneg v, r3))
         else
           (let (m3, r3) = matchChar (CHR ''!'') r2 in
            if m3 then
              (case unary vs pfx r3 of
                 Inl e \<Rightarrow> Inl e
               | Inr (v, r4) \<Rightarrow> Inr (if bool_of_double (truthy v) then Num 0 else Num 1, r4))
            else primary vs pfx r3)))"
| "factor vs pfx r =
     (case unary vs pfx r of Inl e \<Rightarrow> Inl e | Inr (v, r1) \<Rightarrow> factor_loop vs pfx v r1)"
| "factor_loop vs pfx v r =
     (let r0 = skipWs r; (m1, r1) = matchChar (CHR ''*'') r0 in
      if m1 then
        (case unary vs pfx r1 of Inl e \<Rightarrow> Inl e | Inr (u, r2) \<Rightarrow> factor_loop vs pfx (dmul v u) r2)
      else
        (let (m2, r2) = matchChar (CHR ''/'') r1 in
         if m2 then
           (case unary vs pfx r2 of Inl e \<Rightarrow> Inl e | Inr (u, r3) \<Rightarrow> factor_loop vs pfx (ddiv v u) r3)
         else
           (let (m3, r3) = matchChar (CHR ''%'') r2 in
            if m3 then
              (case unary vs pfx r3 of
                 Inl e \<Rightarrow> Inl e
               | Inr (rhs, r4) \<Rightarrow> factor_loop vs pfx (dfmod v rhs) r4)
            else Inr (v, r3))))"
| "term_rule vs pfx r =
     (case factor vs pfx r of Inl e \<Rightarrow> Inl e | Inr (v, r1) \<Rightarrow> term_loop vs pfx v r1)"
| "term_loop vs pfx v r =
     (let r0 = skipWs r; (m1, r1) = matchChar (CHR ''+'') r0 in
      if m1 then
        (case factor vs pfx r1 of Inl e \<Rightarrow> Inl e | Inr (u, r2) \<Rightarrow> term_loop vs pfx (dadd v u) r2)
      else
        (let (m2, r2) = matchChar (CHR ''-'') r1 in
         if m2 then
           (case factor vs pfx r2 of Inl e \<Rightarrow> Inl e | Inr (u, r3) \<Rightarrow> term_loop vs pfx (dsub v u) r3)
         else Inr (v, r2)))"
| "comparison vs pfx r =
     (case term_rule vs pfx r of Inl e \<Rightarrow> Inl e | Inr (v, r1) \<Rightarrow> comparison_loop vs pfx v r1)"
| "comparison_loop vs pfx v r =
     (let r0 = skipWs r; (m1, r1) = matchStr ''>='' r0 in
      if m1 then
        (case term_rule vs pfx r1 of
           Inl e \<Rightarrow> Inl e
         | Inr (u, r2) \<Rightarrow> comparison_loop vs pfx (if dge v u then Num 1 else Num 0) r2)
      else
        (let (m2, r2) = matchStr ''<='' r1 in
         if m2 then
           (case term_rule vs pfx r2 of
              Inl e \<Rightarrow> Inl e
            | Inr (u, r3) \<Rightarrow> comparison_loop vs pfx (if dle v u then Num 1 else Num 0) r3)
         else
           (let (m3, r3) = matchChar (CHR ''>'') r2 in
            if m3 then
              (case term_rule vs pfx r3 of
                 Inl e \<Rightarrow> Inl e
               | Inr (u, r4) \<Rightarrow> comparison_loop vs pfx (if dgt v u then Num 1 else Num 0) r4)
            else
              (let (m4, r4) = matchChar (CHR ''<'') r3 in
               if m4 then
                 (case term_rule vs pfx r4 of
                    Inl e \<Rightarrow> Inl e
                  | Inr (u, r5) \<Rightarrow> comparison_loop vs pfx (if dlt v u then Num 1 else Num 0) r5)
               else Inr (v, r4)))))"
| "equality vs pfx r =
     (case comparison vs pfx r of Inl e \<Rightarrow> Inl e | Inr (v, r1) \<Rightarrow> equality_loop vs pfx v r1)"
| "equality_loop vs pfx v r =
     (let r0 = skipWs r; (m1, r1) = matchStr ''=='' r0 in
      if m1 then
        (case comparison vs pfx r1 of
           Inl e \<Rightarrow> Inl e
         | Inr (u, r2) \<Rightarrow> equality_loop vs pfx (if deq v u then Num 1 else Num 0) r2)
      else
        (let (m2, r2) = matchStr ''!='' r1 in
         if m2 then
           (case comparison vs pfx r2 of
              Inl e \<Rightarrow> Inl e
            | Inr (u, r3) \<Rightarrow> equality_loop vs pfx (if dne v u then Num 1 else Num 0) r3)
         else Inr (v, r2)))"
| "logical_and vs pfx r =
     (case equality vs pfx r of Inl e \<Rightarrow> Inl e | Inr (v, r1) \<Rightarrow> logical_and_loop vs pfx v r1)"
| "logical_and_loop vs pfx v r =
     (let r0 = skipWs r; (m1, r1) = matchStr ''&&'' r0 in
      if m1 then
        (case equality vs pfx r1 of
           Inl e \<Rightarrow> Inl e
         | Inr (u, r2) \<Rightarrow>
             logical_and_loop vs pfx
               (if bool_of_double (truthy v) \<and> bool_of_double (truthy u) then Num 1 else Num 0) r2)
      else Inr (v, r1))"
| "logical_or vs pfx r =
     (case logical_and vs pfx r of Inl e \<Rightarrow> Inl e | Inr (v, r1) \<Rightarrow> logical_or_loop vs pfx v r1)"
| "logical_or_loop vs pfx v r =
     (let r0 = skipWs r; (m1, r1) = matchStr ''||'' r0 in
      if m1 then
        (case logical_and vs pfx r1 of
           Inl e \<Rightarrow> Inl e
         | Inr (u, r2) \<Rightarrow>
             logical_or_loop vs pfx
               (if bool_of_double (truthy v) \<or> bool_of_double (truthy u) then Num 1 else Num 0) r2)
      else Inr (v, r1))"
| "expr vs pfx r = logical_or vs pfx r"
  by pat_completeness auto

subsection \<open>Termination of the parser\<close>

text \<open>No parsing function returns more unread input than it was given.\<close>

lemma length_skipWs: "length (skipWs r) \<le> length r"
  by (simp add: skipWs_def length_dropWhile_le)

lemma matchChar_length:
  assumes "matchChar c r = (m, r')"
  shows "length r' \<le> length r \<and> (m \<longrightarrow> length r' < length r)"
proof (cases "skipWs r")
  case Nil
  with assms show ?thesis by (simp add: matchChar_def)
next
  case (Cons x xs)
  have "length (x # xs) \<le> length r" using length_skipWs [of r] Cons by simp
  moreover from assms Cons have "(m \<and> r' = xs) \<or> (\<not> m \<and> r' = x # xs)"
    by (auto simp: matchChar_def split: if_splits)
  ultimately show ?thesis by auto
qed

lemma matchStr_length:
  assumes "matchStr t r = (m, r')"
  shows "length r' \<le> length r \<and> (m \<longrightarrow> t \<noteq> [] \<longrightarrow> length r' < length r)"
proof -
  from assms have "(m \<and> r' = drop (length t) (skipWs r) \<and> length t \<le> length (skipWs r))
      \<or> (\<not> m \<and> r' = skipWs r)"
    by (auto simp: matchStr_def Let_def split: if_splits)
  then show ?thesis using length_skipWs [of r] by (cases t) auto
qed

lemma peek_length: "peek r = (c, r') \<Longrightarrow> length r' \<le> length r"
  using length_skipWs [of r]
  by (cases "skipWs r") (auto simp: peek_def Let_def)

lemma parseIdentifier_length:
  assumes "parseIdentifier r = (i, r')"
  shows "length r' \<le> length r"
proof (cases "skipWs r")
  case Nil
  with assms show ?thesis by (simp add: parseIdentifier_def)
next
  case (Cons x xs)
  with assms have "r' = x # xs \<or> r' = dropWhile isword xs"
    by (auto simp: parseIdentifier_def split: if_splits)
  moreover have "length (dropWhile isword xs) \<le> length xs" by (rule length_dropWhile_le)
  moreover have "length (x # xs) \<le> length r" using length_skipWs [of r] Cons by simp
  ultimately show ?thesis by auto
qed

lemma scan_exponent_append: "scan_exponent r = Some (t, r') \<Longrightarrow> r = t @ r'"
  by (cases r; cases "tl r") (auto simp: scan_exponent_def Let_def split: if_splits)

lemma scan_exponent_part_append: "scan_exponent_part r = (t, r') \<Longrightarrow> r = t @ r'"
  by (cases "scan_exponent r") (auto simp: scan_exponent_part_def dest: scan_exponent_append)

lemma scan_fraction_append: "scan_fraction r = (t, r') \<Longrightarrow> r = t @ r'"
  by (cases r) (auto simp: scan_fraction_def split: if_splits)

lemma scan_number_append:
  assumes "scan_number r = (lit, r', b)"
  shows "r = lit @ r'"
proof (cases r)
  case Nil
  with assms show ?thesis by (simp add: scan_number_def)
next
  case (Cons c rr)
  show ?thesis
  proof (cases "c = CHR ''.'' \<or> isdigit c")
    case False
    with assms Cons show ?thesis by (simp add: scan_number_def)
  next
    case True
    define dot where "dot = (if c = CHR ''.'' then [c] else [])"
    define r1 where "r1 = (if c = CHR ''.'' then rr else r)"
    obtain frac r3 where f: "scan_fraction (dropWhile isdigit r1) = (frac, r3)"
      by (cases "scan_fraction (dropWhile isdigit r1)") auto
    obtain ex r4 where e: "scan_exponent_part r3 = (ex, r4)"
      by (cases "scan_exponent_part r3") auto
    have "r = dot @ r1" by (simp add: dot_def r1_def Cons)
    also have "r1 = takeWhile isdigit r1 @ dropWhile isdigit r1" by simp
    also have "dropWhile isdigit r1 = frac @ r3" by (rule scan_fraction_append [OF f])
    also have "r3 = ex @ r4" by (rule scan_exponent_part_append [OF e])
    finally have "r = (dot @ takeWhile isdigit r1 @ frac @ ex) @ r4" by simp
    moreover have "lit = dot @ takeWhile isdigit r1 @ frac @ ex \<and> r' = r4"
      using assms True Cons f e
      by (cases "c = CHR ''.''") (auto simp: scan_number_def dot_def r1_def Let_def)
    ultimately show ?thesis by simp
  qed
qed

lemma parseNumber_length:
  assumes "parseNumber pfx r = Inr (v, r')"
  shows "length r' \<le> length r"
proof -
  obtain lit r1 b where s: "scan_number (skipWs r) = (lit, r1, b)"
    by (cases "scan_number (skipWs r)") auto
  with assms have "r' = r1"
    by (auto simp: parseNumber_def fail_def split: if_splits sum.splits)
  with scan_number_append [OF s] length_skipWs [of r] show ?thesis by simp
qed

abbreviation parser_dom where
  "parser_dom \<equiv> primary_call_args_unary_factor_factor_loop_term_rule_term_loop_comparison_comparison_loop_equality_equality_loop_logical_and_logical_and_loop_logical_or_logical_or_loop_expr_dom"

lemmas parser_pinduct = primary_call_args_unary_factor_factor_loop_term_rule_term_loop_comparison_comparison_loop_equality_equality_loop_logical_and_logical_and_loop_logical_or_logical_or_loop_expr.pinduct

definition shrinks :: "string \<Rightarrow> ('a \<times> string) result \<Rightarrow> bool" where
  "shrinks r res = (\<forall>v r'. res = Inr (v, r') \<longrightarrow> length r' \<le> length r)"

lemma shrinks_Inl [simp]: "shrinks r (Inl e)"
  by (simp add: shrinks_def)

lemma shrinks_Inr [simp]: "shrinks r (Inr (v, r')) = (length r' \<le> length r)"
  by (simp add: shrinks_def)

lemma shrinks_fail [simp]: "shrinks r (fail pfx r' msg)"
  by (simp add: fail_def)

lemma shrinks_bind:
  assumes "shrinks r1 res" and "length r1 \<le> length r"
    and "\<And>v r2. res = Inr (v, r2) \<Longrightarrow> shrinks r2 (f v r2)"
  shows "shrinks r (case res of Inl e \<Rightarrow> Inl e | Inr (v, r2) \<Rightarrow> f v r2)"
proof (cases res)
  case (Inl e)
  then show ?thesis by simp
next
  case (Inr b)
  obtain v r2 where b: "b = (v, r2)" by (cases b)
  have "length r2 \<le> length r1" using assms(1) Inr b by simp
  moreover have "shrinks r2 (f v r2)" using assms(3) Inr b by simp
  ultimately show ?thesis using assms(2) Inr b by (auto simp: shrinks_def)
qed

lemma shrinks_map:
  assumes "shrinks r1 res" and "length r1 \<le> length r"
  shows "shrinks r (case res of Inl e \<Rightarrow> Inl e | Inr (v, r2) \<Rightarrow> Inr (g v, r2))"
  by (rule shrinks_bind [OF assms]) simp

lemma parser_shrinks:
  shows "parser_dom (Inl (Inl (Inl (Inl (vs, pfx, r))))) \<Longrightarrow> shrinks r (primary vs pfx r)"
  and "parser_dom (Inl (Inl (Inl (Inr (vs, pfx, args, r))))) \<Longrightarrow> shrinks r (call_args vs pfx args r)"
  and "parser_dom (Inl (Inl (Inr (Inl (vs, pfx, r))))) \<Longrightarrow> shrinks r (unary vs pfx r)"
  and "parser_dom (Inl (Inl (Inr (Inr (vs, pfx, r))))) \<Longrightarrow> shrinks r (factor vs pfx r)"
  and "parser_dom (Inl (Inr (Inl (Inl (vs, pfx, v, r))))) \<Longrightarrow> shrinks r (factor_loop vs pfx v r)"
  and "parser_dom (Inl (Inr (Inl (Inr (vs, pfx, r))))) \<Longrightarrow> shrinks r (term_rule vs pfx r)"
  and "parser_dom (Inl (Inr (Inr (Inl (vs, pfx, v, r))))) \<Longrightarrow> shrinks r (term_loop vs pfx v r)"
  and "parser_dom (Inl (Inr (Inr (Inr (vs, pfx, r))))) \<Longrightarrow> shrinks r (comparison vs pfx r)"
  and "parser_dom (Inr (Inl (Inl (Inl (vs, pfx, v, r))))) \<Longrightarrow> shrinks r (comparison_loop vs pfx v r)"
  and "parser_dom (Inr (Inl (Inl (Inr (vs, pfx, r))))) \<Longrightarrow> shrinks r (equality vs pfx r)"
  and "parser_dom (Inr (Inl (Inr (Inl (vs, pfx, v, r))))) \<Longrightarrow> shrinks r (equality_loop vs pfx v r)"
  and "parser_dom (Inr (Inl (Inr (Inr (vs, pfx, r))))) \<Longrightarrow> shrinks r (logical_and vs pfx r)"
  and "parser_dom (Inr (Inr (Inl (Inl (vs, pfx, v, r))))) \<Longrightarrow> shrinks r (logical_and_loop vs pfx v r)"
  and "parser_dom (Inr (Inr (Inl (Inr (vs, pfx, r))))) \<Longrightarrow> shrinks r (logical_or vs pfx r)"
  and "parser_dom (Inr (Inr (Inr (Inl (vs, pfx, v, r))))) \<Longrightarrow> shrinks r (logical_or_loop vs pfx v r)"
  and "parser_dom (Inr (Inr (Inr (Inr (vs, pfx, r))))) \<Longrightarrow> shrinks r (expr vs pfx r)"
proof (induct rule: parser_pinduct)
  case (1 vs pfx r)
  obtain m1 r1 where a1: "matchChar (CHR ''('') (skipWs r) = (m1, r1)" by force
  obtain c r2 where a2: "peek r1 = (c, r2)" by force
  obtain ident r3 where a3: "parseIdentifier r2 = (ident, r3)" by force
  obtain m3 r5 where a4: "matchChar (CHR ''('') (skipWs r3) = (m3, r5)" by force
  obtain m4 r7 where a5: "matchChar (CHR '')'') (skipWs r5) = (m4, r7)" by force
  have l1: "length r1 \<le> length r"
    using matchChar_length [OF a1] length_skipWs [of r] by auto
  have l2: "length r2 \<le> length r"
    using l1 peek_length [OF a2] by auto
  have l5: "length r5 \<le> length r"
    using l2 parseIdentifier_length [OF a3] matchChar_length [OF a4] length_skipWs [of r3] by auto
  have l7: "length r7 \<le> length r"
    using l5 matchChar_length [OF a5] length_skipWs [of r5] by auto
  have b1: "m1 \<Longrightarrow> shrinks r (case expr vs pfx r1 of Inl e \<Rightarrow> Inl e
      | Inr (v, r2) \<Rightarrow>
          (let (m2, r3) = matchChar (CHR '')'') r2 in
           if \<not> m2 then fail pfx r3 (''Expected '' @ [quote] @ '')'' @ [quote]) else Inr (v, r3)))"
  proof (rule shrinks_bind [OF 1(2) [OF refl refl a1 [symmetric]] l1])
    fix v r2
    obtain m2 r3 where a: "matchChar (CHR '')'') r2 = (m2, r3)" by force
    show "shrinks r2 (let (m2, r3) = matchChar (CHR '')'') r2 in
           if \<not> m2 then fail pfx r3 (''Expected '' @ [quote] @ '')'' @ [quote]) else Inr (v, r3))"
      using matchChar_length [OF a] by (simp add: a)
  qed
  have b2: "\<not> m1 \<Longrightarrow> isalpha c \<or> c = CHR ''_'' \<Longrightarrow> m3 \<Longrightarrow> \<not> m4 \<Longrightarrow>
    shrinks r (case call_args vs pfx [] r7 of Inl e \<Rightarrow> Inl e
      | Inr (args, r8) \<Rightarrow>
          (case callFunction pfx r8 ident args of Inl e \<Rightarrow> Inl e | Inr v \<Rightarrow> Inr (v, r8)))"
  proof (rule shrinks_bind [OF 1(3) [OF refl refl a1 [symmetric] _ refl a2 [symmetric] _ refl
          a3 [symmetric] refl refl a4 [symmetric] _ refl refl a5 [symmetric]] l7])
    fix args r8
    show "shrinks r8 (case callFunction pfx r8 ident args of Inl e \<Rightarrow> Inl e | Inr v \<Rightarrow> Inr (v, r8))"
      by (cases "callFunction pfx r8 ident args") simp_all
  qed
  have b3: "shrinks r (case callFunction pfx r7 ident [] of Inl e \<Rightarrow> Inl e | Inr v \<Rightarrow> Inr (v, r7))"
    using l7 by (cases "callFunction pfx r7 ident []") simp_all
  have b4: "shrinks r (case vs ident of Some v \<Rightarrow> Inr (v, r5)
      | None \<Rightarrow> fail pfx r5 (''Unknown variable: '' @ ident))"
    using l5 by (cases "vs ident") simp_all
  have b5: "shrinks r (parseNumber pfx r2)"
    using l2 by (auto simp: shrinks_def dest: parseNumber_length)
  show ?case
    by (subst primary.psimps [OF 1(1)])
       (simp add: Let_def a1 a2 a3 a4 a5 b1 b2 b3 b4 b5)
next
  case (2 vs pfx args r)
  have "shrinks r (case expr vs pfx r of Inl e \<Rightarrow> Inl e
      | Inr (v, r1) \<Rightarrow>
          (let r2 = skipWs r1; (m1, r3) = matchChar (CHR '')'') r2 in
           if m1 then Inr (args @ [v], r3)
           else
             (let (m2, r4) = matchChar (CHR '','') r3 in
              if \<not> m2 then fail pfx r4 (''Expected '' @ [quote] @ '','' @ [quote] @ '' or '' @ [quote] @ '')'' @ [quote])
              else call_args vs pfx (args @ [v]) r4)))"
  proof (rule shrinks_bind [OF 2(2) order_refl])
    fix v r1
    assume e: "expr vs pfx r = Inr (v, r1)"
    obtain m1 r3 where a1: "matchChar (CHR '')'') (skipWs r1) = (m1, r3)" by force
    obtain m2 r4 where a2: "matchChar (CHR '','') r3 = (m2, r4)" by force
    have l: "length r3 \<le> length r1" "length r4 \<le> length r1"
      using matchChar_length [OF a1] matchChar_length [OF a2] length_skipWs [of r1] by auto
    have "\<not> m1 \<Longrightarrow> m2 \<Longrightarrow> shrinks r1 (call_args vs pfx (args @ [v]) r4)"
      using 2(3) [OF e refl refl refl a1 [symmetric] _ refl a2 [symmetric]] l(2)
      by (auto simp: shrinks_def)
    then show "shrinks r1 (let r2 = skipWs r1; (m1, r3) = matchChar (CHR '')'') r2 in
           if m1 then Inr (args @ [v], r3)
           else
             (let (m2, r4) = matchChar (CHR '','') r3 in
              if \<not> m2 then fail pfx r4 (''Expected '' @ [quote] @ '','' @ [quote] @ '' or '' @ [quote] @ '')'' @ [quote])
              else call_args vs pfx (args @ [v]) r4))"
      by (simp add: Let_def a1 a2 l)
  qed
  then show ?case
    by (subst call_args.psimps [OF 2(1)])
next
  case (3 vs pfx r)
  obtain m1 r1 where a1: "matchChar (CHR ''+'') (skipWs r) = (m1, r1)" by force
  obtain m2 r2 where a2: "matchChar (CHR ''-'') r1 = (m2, r2)" by force
  obtain m3 r3 where a3: "matchChar (CHR ''!'') r2 = (m3, r3)" by force
  have l: "length r1 \<le> length r" "length r2 \<le> length r" "length r3 \<le> length r"
    using matchChar_length [OF a1] matchChar_length [OF a2] matchChar_length [OF a3]
      length_skipWs [of r] by auto
  have b1: "m1 \<Longrightarrow> shrinks r (unary vs pfx r1)"
    using 3(2) [OF refl refl a1 [symmetric]] l(1) by (auto simp: shrinks_def)
  have b2: "\<not> m1 \<Longrightarrow> m2 \<Longrightarrow> shrinks r (case unary vs pfx r2 of Inl e \<Rightarrow> Inl e
      | Inr (v, r') \<Rightarrow> Inr (dneg v, r'))"
    by (rule shrinks_map [OF 3(3) [OF refl refl a1 [symmetric] _ refl a2 [symmetric]] l(2)])
  have b3: "\<not> m1 \<Longrightarrow> \<not> m2 \<Longrightarrow> m3 \<Longrightarrow> shrinks r (case unary vs pfx r3 of Inl e \<Rightarrow> Inl e
      | Inr (v, r') \<Rightarrow> Inr (if bool_of_double (truthy v) then Num 0 else Num 1, r'))"
    by (rule shrinks_map [OF 3(4) [OF refl refl a1 [symmetric] _ refl a2 [symmetric] _ refl a3 [symmetric]] l(3)])
  have b4: "\<not> m1 \<Longrightarrow> \<not> m2 \<Longrightarrow> \<not> m3 \<Longrightarrow> shrinks r (primary vs pfx r3)"
    using 3(5) [OF refl refl a1 [symmetric] _ refl a2 [symmetric] _ refl a3 [symmetric]] l(3)
    by (auto simp: shrinks_def)
  show ?case
    by (subst unary.psimps [OF 3(1)]) (simp add: Let_def a1 a2 a3 b1 b2 b3 b4)
next
  case (4 vs pfx r)
  show ?case
    by (subst factor.psimps [OF 4(1)]) (rule shrinks_bind [OF 4(2) order_refl 4(3) [OF _ refl]])
next
  case (5 vs pfx v r)
  obtain m1 r1 where a1: "matchChar (CHR ''*'') (skipWs r) = (m1, r1)" by force
  obtain m2 r2 where a2: "matchChar (CHR ''/'') r1 = (m2, r2)" by force
  obtain m3 r3 where a3: "matchChar (CHR ''%'') r2 = (m3, r3)" by force
  have l: "length r1 \<le> length r" "length r2 \<le> length r" "length r3 \<le> length r"
    using matchChar_length [OF a1] matchChar_length [OF a2] matchChar_length [OF a3] length_skipWs [of r] by auto
  have b1: "shrinks r (case unary vs pfx r1 of Inl e \<Rightarrow> Inl e
      | Inr (u, r') \<Rightarrow> factor_loop vs pfx (dmul v u) r')" if "m1"
  proof (rule shrinks_bind [OF _ l(1)])
    show "shrinks r1 (unary vs pfx r1)"
      using that by - (rule 5(2) [OF refl refl a1 [symmetric]], assumption+)
    show "shrinks r' (factor_loop vs pfx (dmul v u) r')" if "unary vs pfx r1 = Inr (u, r')" for u r'
      using that \<open>m1\<close> by - (rule 5(3) [OF refl refl a1 [symmetric] _ _ refl], assumption+)
  qed
  have b2: "shrinks r (case unary vs pfx r2 of Inl e \<Rightarrow> Inl e
      | Inr (u, r') \<Rightarrow> factor_loop vs pfx (ddiv v u) r')" if "\<not> m1" "m2"
  proof (rule shrinks_bind [OF _ l(2)])
    show "shrinks r2 (unary vs pfx r2)"
      using that by - (rule 5(4) [OF refl refl a1 [symmetric] _ refl a2 [symmetric]], assumption+)
    show "shrinks r' (factor_loop vs pfx (ddiv v u) r')" if "unary vs pfx r2 = Inr (u, r')" for u r'
      using that \<open>\<not> m1\<close> \<open>m2\<close> by - (rule 5(5) [OF refl refl a1 [symmetric] _ refl a2 [symmetric] _ _ refl], assumption+)
  qed
  have b3: "shrinks r (case unary vs pfx r3 of Inl e \<Rightarrow> Inl e
      | Inr (u, r') \<Rightarrow> factor_loop vs pfx (dfmod v u) r')" if "\<not> m1" "\<not> m2" "m3"
  proof (rule shrinks_bind [OF _ l(3)])
    show "shrinks r3 (unary vs pfx r3)"
      using that by - (rule 5(6) [OF refl refl a1 [symmetric] _ refl a2 [symmetric] _ refl a3 [symmetric]], assumption+)
    show "shrinks r' (factor_loop vs pfx (dfmod v u) r')" if "unary vs pfx r3 = Inr (u, r')" for u r'
      using that \<open>\<not> m1\<close> \<open>\<not> m2\<close> \<open>m3\<close> by - (rule 5(7) [OF refl refl a1 [symmetric] _ refl a2 [symmetric] _ refl a3 [symmetric] _ _ refl], assumption+)
  qed
  show ?case
    by (subst factor_loop.psimps [OF 5(1)])
       (simp add: Let_def a1 a2 a3 b1 b2 b3 l)
next
  case (6 vs pfx r)
  show ?case
    by (subst term_rule.psimps [OF 6(1)]) (rule shrinks_bind [OF 6(2) order_refl 6(3) [OF _ refl]])
next
  case (7 vs pfx v r)
  obtain m1 r1 where a1: "matchChar (CHR ''+'') (skipWs r) = (m1, r1)" by force
  obtain m2 r2 where a2: "matchChar (CHR ''-'') r1 = (m2, r2)" by force
  have l: "length r1 \<le> length r" "length r2 \<le> length r"
    using matchChar_length [OF a1] matchChar_length [OF a2] length_skipWs [of r] by auto
  have b1: "shrinks r (case factor vs pfx r1 of Inl e \<Rightarrow> Inl e
      | Inr (u, r') \<Rightarrow> term_loop vs pfx (dadd v u) r')" if "m1"
  proof (rule shrinks_bind [OF _ l(1)])
    show "shrinks r1 (factor vs pfx r1)"
      using that by - (rule 7(2) [OF refl refl a1 [symmetric]], assumption+)
    show "shrinks r' (term_loop vs pfx (dadd v u) r')" if "factor vs pfx r1 = Inr (u, r')" for u r'
      using that \<open>m1\<close> by - (rule 7(3) [OF refl refl a1 [symmetric] _ _ refl], assumption+)
  qed
  have b2: "shrinks r (case factor vs pfx r2 of Inl e \<Rightarrow> Inl e
      | Inr (u, r') \<Rightarrow> term_loop vs pfx (dsub v u) r')" if "\<not> m1" "m2"
  proof (rule shrinks_bind [OF _ l(2)])
    show "shrinks r2 (factor vs pfx r2)"
      using that by - (rule 7(4) [OF refl refl a1 [symmetric] _ refl a2 [symmetric]], assumption+)
    show "shrinks r' (term_loop vs pfx (dsub v u) r')" if "factor vs pfx r2 = Inr (u, r')" for u r'
      using that \<open>\<not> m1\<close> \<open>m2\<close> by - (rule 7(5) [OF refl refl a1 [symmetric] _ refl a2 [symmetric] _ _ refl], assumption+)
  qed
  show ?case
    by (subst term_loop.psimps [OF 7(1)])
       (simp add: Let_def a1 a2 b1 b2 l)
next
  case (8 vs pfx r)
  show ?case
    by (subst comparison.psimps [OF 8(1)]) (rule shrinks_bind [OF 8(2) order_refl 8(3) [OF _ refl]])
next
  case (9 vs pfx v r)
  obtain m1 r1 where a1: "matchStr ''>='' (skipWs r) = (m1, r1)" by force
  obtain m2 r2 where a2: "matchStr ''<='' r1 = (m2, r2)" by force
  obtain m3 r3 where a3: "matchChar (CHR ''>'') r2 = (m3, r3)" by force
  obtain m4 r4 where a4: "matchChar (CHR ''<'') r3 = (m4, r4)" by force
  have l: "length r1 \<le> length r" "length r2 \<le> length r" "length r3 \<le> length r" "length r4 \<le> length r"
    using matchStr_length [OF a1] matchStr_length [OF a2] matchChar_length [OF a3] matchChar_length [OF a4] length_skipWs [of r] by auto
  have b1: "shrinks r (case term_rule vs pfx r1 of Inl e \<Rightarrow> Inl e
      | Inr (u, r') \<Rightarrow> comparison_loop vs pfx (if dge v u then Num 1 else Num 0) r')" if "m1"
  proof (rule shrinks_bind [OF _ l(1)])
    show "shrinks r1 (term_rule vs pfx r1)"
      using that by - (rule 9(2) [OF refl refl a1 [symmetric]], assumption+)
    show "shrinks r' (comparison_loop vs pfx (if dge v u then Num 1 else Num 0) r')" if "term_rule vs pfx r1 = Inr (u, r')" for u r'
      using that \<open>m1\<close> by - (rule 9(3) [OF refl refl a1 [symmetric] _ _ refl], assumption+)
  qed
  have b2: "shrinks r (case term_rule vs pfx r2 of Inl e \<Rightarrow> Inl e
      | Inr (u, r') \<Rightarrow> comparison_loop vs pfx (if dle v u then Num 1 else Num 0) r')" if "\<not> m1" "m2"
  proof (rule shrinks_bind [OF _ l(2)])
    show "shrinks r2 (term_rule vs pfx r2)"
      using that by - (rule 9(4) [OF refl refl a1 [symmetric] _ refl a2 [symmetric]], assumption+)
    show "shrinks r' (comparison_loop vs pfx (if dle v u then Num 1 else Num 0) r')" if "term_rule vs pfx r2 = Inr (u, r')" for u r'
      using that \<open>\<not> m1\<close> \<open>m2\<close> by - (rule 9(5) [OF refl refl a1 [symmetric] _ refl a2 [symmetric] _ _ refl], assumption+)
  qed
  have b3: "shrinks r (case term_rule vs pfx r3 of Inl e \<Rightarrow> Inl e
      | Inr (u, r') \<Rightarrow> comparison_loop vs pfx (if dgt v u then Num 1 else Num 0) r')" if "\<not> m1" "\<not> m2" "m3"
  proof (rule shrinks_bind [OF _ l(3)])
    show "shrinks r3 (term_rule vs pfx r3)"
      using that by - (rule 9(6) [OF refl refl a1 [symmetric] _ refl a2 [symmetric] _ refl a3 [symmetric]], assumption+)
    show "shrinks r' (comparison_loop vs pfx (if dgt v u then Num 1 else Num 0) r')" if "term_rule vs pfx r3 = Inr (u, r')" for u r'
      using that \<open>\<not> m1\<close> \<open>\<not> m2\<close> \<open>m3\<close> by - (rule 9(7) [OF refl refl a1 [symmetric] _ refl a2 [symmetric] _ refl a3 [symmetric] _ _ refl], assumption+)
  qed
  have b4: "shrinks r (case term_rule vs pfx r4 of Inl e \<Rightarrow> Inl e
      | Inr (u, r') \<Rightarrow> comparison_loop vs pfx (if dlt v u then Num 1 else Num 0) r')" if "\<not> m1" "\<not> m2" "\<not> m3" "m4"
  proof (rule shrinks_bind [OF _ l(4)])
    show "shrinks r4 (term_rule vs pfx r4)"
      using that by - (rule 9(8) [OF refl refl a1 [symmetric] _ refl a2 [symmetric] _ refl a3 [symmetric] _ refl a4 [symmetric]], assumption+)
    show "shrinks r' (comparison_loop vs pfx (if dlt v u then Num 1 else Num 0) r')" if "term_rule vs pfx r4 = Inr (u, r')" for u r'
      using that \<open>\<not> m1\<close> \<open>\<not> m2\<close> \<open>\<not> m3\<close> \<open>m4\<close> by - (rule 9(9) [OF refl refl a1 [symmetric] _ refl a2 [symmetric] _ refl a3 [symmetric] _ refl a4 [symmetric] _ _ refl], assumption+)
  qed
  show ?case
    by (subst comparison_loop.psimps [OF 9(1)])
       (simp add: Let_def a1 a2 a3 a4 b1 b2 b3 b4 l)
next
  case (10 vs pfx r)
  show ?case
    by (subst equality.psimps [OF 10(1)]) (rule shrinks_bind [OF 10(2) order_refl 10(3) [OF _ refl]])
next
  case (11 vs pfx v r)
  obtain m1 r1 where a1: "matchStr ''=='' (skipWs r) = (m1, r1)" by force
  obtain m2 r2 where a2: "matchStr ''!='' r1 = (m2, r2)" by force
  have l: "length r1 \<le> length r" "length r2 \<le> length r"
    using matchStr_length [OF a1] matchStr_length [OF a2] length_skipWs [of r] by auto
  have b1: "shrinks r (case comparison vs pfx r1 of Inl e \<Rightarrow> Inl e
      | Inr (u, r') \<Rightarrow> equality_loop vs pfx (if deq v u then Num 1 else Num 0) r')" if "m1"
  proof (rule shrinks_bind [OF _ l(1)])
    show "shrinks r1 (comparison vs pfx r1)"
      using that by - (rule 11(2) [OF refl refl a1 [symmetric]], assumption+)
    show "shrinks r' (equality_loop vs pfx (if deq v u then Num 1 else Num 0) r')" if "comparison vs pfx r1 = Inr (u, r')" for u r'
      using that \<open>m1\<close> by - (rule 11(3) [OF refl refl a1 [symmetric] _ _ refl], assumption+)
  qed
  have b2: "shrinks r (case comparison vs pfx r2 of Inl e \<Rightarrow> Inl e
      | Inr (u, r') \<Rightarrow> equality_loop vs pfx (if dne v u then Num 1 else Num 0) r')" if "\<not> m1" "m2"
  proof (rule shrinks_bind [OF _ l(2)])
    show "shrinks r2 (comparison vs pfx r2)"
      using that by - (rule 11(4) [OF refl refl a1 [symmetric] _ refl a2 [symmetric]], assumption+)
    show "shrinks r' (equality_loop vs pfx (if dne v u then Num 1 else Num 0) r')" if "comparison vs pfx r2 = Inr (u, r')" for u r'
      using that \<open>\<not> m1\<close> \<open>m2\<close> by - (rule 11(5) [OF refl refl a1 [symmetric] _ refl a2 [symmetric] _ _ refl], assumption+)
  qed
  show ?case
    by (subst equality_loop.psimps [OF 11(1)])
       (simp add: Let_def a1 a2 b1 b2 l)
next
  case (12 vs pfx r)
  show ?case
    by (subst logical_and.psimps [OF 12(1)]) (rule shrinks_bind [OF 12(2) order_refl 12(3) [OF _ refl]])
next
  case (13 vs pfx v r)
  obtain m1 r1 where a1: "matchStr ''&&'' (skipWs r) = (m1, r1)" by force
  have l: "length r1 \<le> length r"
    using matchStr_length [OF a1] length_skipWs [of r] by auto
  have b1: "shrinks r (case equality vs pfx r1 of Inl e \<Rightarrow> Inl e
      | Inr (u, r') \<Rightarrow> logical_and_loop vs pfx (if bool_of_double (truthy v) \<and> bool_of_double (truthy u) then Num 1 else Num 0) r')" if "m1"
  proof (rule shrinks_bind [OF _ l(1)])
    show "shrinks r1 (equality vs pfx r1)"
      using that by - (rule 13(2) [OF refl refl a1 [symmetric]], assumption+)
    show "shrinks r' (logical_and_loop vs pfx (if bool_of_double (truthy v) \<and> bool_of_double (truthy u) then Num 1 else Num 0) r')" if "equality vs pfx r1 = Inr (u, r')" for u r'
      using that \<open>m1\<close> by - (rule 13(3) [OF refl refl a1 [symmetric] _ _ refl], assumption+)
  qed
  show ?case
    by (subst logical_and_loop.psimps [OF 13(1)])
       (simp add: Let_def a1 b1 l)
next
  case (14 vs pfx r)
  show ?case
    by (subst logical_or.psimps [OF 14(1)]) (rule shrinks_bind [OF 14(2) order_refl 14(3) [OF _ refl]])
next
  case (15 vs pfx v r)
  obtain m1 r1 where a1: "matchStr ''||'' (skipWs r) = (m1, r1)" by force
  have l: "length r1 \<le> length r"
    using matchStr_length [OF a1] length_skipWs [of r] by auto
  have b1: "shrinks r (case logical_and vs pfx r1 of Inl e \<Rightarrow> Inl e
      | Inr (u, r') \<Rightarrow> logical_or_loop vs pfx (if bool_of_double (truthy v) \<or> bool_of_double (truthy u) then Num 1 else Num 0) r')" if "m1"
  proof (rule shrinks_bind [OF _ l(1)])
    show "shrinks r1 (logical_and vs pfx r1)"
      using that by - (rule 15(2) [OF refl refl a1 [symmetric]], assumption+)
    show "shrinks r' (logical_or_loop vs pfx (if bool_of_double (truthy v) \<or> bool_of_double (truthy u) then Num 1 else Num 0) r')" if "logical_and vs pfx r1 = Inr (u, r')" for u r'
      using that \<open>m1\<close> by - (rule 15(3) [OF refl refl a1 [symmetric] _ _ refl], assumption+)
  qed
  show ?case
    by (subst logical_or_loop.psimps [OF 15(1)])
       (simp add: Let_def a1 b1 l)
next
  case (16 vs pfx r)
  show ?case using 16(2) by (subst expr.psimps [OF 16(1)])
qed

lemma parser_shrinksD:
  "parser_dom (Inl (Inl (Inr (Inl (vs, pfx, r))))) \<Longrightarrow> unary vs pfx r = Inr (v, r') \<Longrightarrow> length r' \<le> length r"
  "parser_dom (Inl (Inl (Inr (Inr (vs, pfx, r))))) \<Longrightarrow> factor vs pfx r = Inr (v, r') \<Longrightarrow> length r' \<le> length r"
  "parser_dom (Inl (Inr (Inl (Inr (vs, pfx, r))))) \<Longrightarrow> term_rule vs pfx r = Inr (v, r') \<Longrightarrow> length r' \<le> length r"
  "parser_dom (Inl (Inr (Inr (Inr (vs, pfx, r))))) \<Longrightarrow> comparison vs pfx r = Inr (v, r') \<Longrightarrow> length r' \<le> length r"
  "parser_dom (Inr (Inl (Inl (Inr (vs, pfx, r))))) \<Longrightarrow> equality vs pfx r = Inr (v, r') \<Longrightarrow> length r' \<le> length r"
  "parser_dom (Inr (Inl (Inr (Inr (vs, pfx, r))))) \<Longrightarrow> logical_and vs pfx r = Inr (v, r') \<Longrightarrow> length r' \<le> length r"
  "parser_dom (Inr (Inr (Inr (Inr (vs, pfx, r))))) \<Longrightarrow> expr vs pfx r = Inr (v, r') \<Longrightarrow> length r' \<le> length r"
  using parser_shrinks(3,4,6,8,10,12,16) [of vs pfx r] by (simp_all add: shrinks_def)

text \<open>The measure: the length of the unread input, then the rank of the function among
  those that call each other on the same input.\<close>

definition parser_measure where
  "parser_measure =
     case_sum
       (case_sum
          (case_sum
             (case_sum (\<lambda>(vs, pfx, r :: string). (length r, 0 :: nat)) (\<lambda>(vs, pfx, args, r :: string). (length r, 15)))
             (case_sum (\<lambda>(vs, pfx, r :: string). (length r, 1)) (\<lambda>(vs, pfx, r :: string). (length r, 3))))
          (case_sum
             (case_sum (\<lambda>(vs, pfx, v, r :: string). (length r, 2)) (\<lambda>(vs, pfx, r :: string). (length r, 5)))
             (case_sum (\<lambda>(vs, pfx, v, r :: string). (length r, 4)) (\<lambda>(vs, pfx, r :: string). (length r, 7)))))
       (case_sum
          (case_sum
             (case_sum (\<lambda>(vs, pfx, v, r :: string). (length r, 6)) (\<lambda>(vs, pfx, r :: string). (length r, 9)))
             (case_sum (\<lambda>(vs, pfx, v, r :: string). (length r, 8)) (\<lambda>(vs, pfx, r :: string). (length r, 11))))
          (case_sum
             (case_sum (\<lambda>(vs, pfx, v, r :: string). (length r, 10)) (\<lambda>(vs, pfx, r :: string). (length r, 13)))
             (case_sum (\<lambda>(vs, pfx, v, r :: string). (length r, 12)) (\<lambda>(vs, pfx, r :: string). (length r, 14)))))"

lemma matchChar_lengthD:
  "(m, r') = matchChar c (skipWs r) \<Longrightarrow> length r' \<le> length r \<and> (m \<longrightarrow> length r' < length r)"
  "(m, r') = matchChar c r \<Longrightarrow> length r' \<le> length r \<and> (m \<longrightarrow> length r' < length r)"
  using matchChar_length [of c "skipWs r" m r'] matchChar_length [of c r m r'] length_skipWs [of r]
  by auto

lemma matchStr_lengthD:
  "(m, r') = matchStr (x # t) (skipWs r) \<Longrightarrow> length r' \<le> length r \<and> (m \<longrightarrow> length r' < length r)"
  "(m, r') = matchStr (x # t) r \<Longrightarrow> length r' \<le> length r \<and> (m \<longrightarrow> length r' < length r)"
  using matchStr_length [of "x # t" "skipWs r" m r'] matchStr_length [of "x # t" r m r'] length_skipWs [of r]
  by auto

lemma peek_lengthD: "(c, r') = peek r \<Longrightarrow> length r' \<le> length r"
  by (rule peek_length [OF sym])

lemma parseIdentifier_lengthD: "(i, r') = parseIdentifier r \<Longrightarrow> length r' \<le> length r"
  by (rule parseIdentifier_length [OF sym])

termination primary
  apply (relation "inv_image (less_than <*lex*> less_than) parser_measure")
  apply (rule wf_inv_image, rule wf_lex_prod, rule wf_less_than, rule wf_less_than)
  apply (simp_all add: parser_measure_def)
  apply ((clarsimp;
      ((drule matchChar_lengthD(1) | drule matchChar_lengthD(2) | drule matchStr_lengthD(1)
        | drule matchStr_lengthD(2) | drule (1) parser_shrinksD | drule peek_lengthD
        | drule parseIdentifier_lengthD)+)?;
      simp)+)
  done

declare primary.simps [simp del] call_args.simps [simp del] unary.simps [simp del]
  factor.simps [simp del] factor_loop.simps [simp del] term_rule.simps [simp del]
  term_loop.simps [simp del] comparison.simps [simp del] comparison_loop.simps [simp del]
  equality.simps [simp del] equality_loop.simps [simp del] logical_and.simps [simp del]
  logical_and_loop.simps [simp del] logical_or.simps [simp del] logical_or_loop.simps [simp del]
  expr.simps [simp del]

text \<open>\<^verbatim>\<open>ExprParser::eval\<close> and \<^verbatim>\<open>Interpreter::evalExpr\<close>: the whole input must be
  consumed, up to trailing white space.\<close>

definition eval :: "variables \<Rightarrow> string \<Rightarrow> string \<Rightarrow> double result" where
  "eval vs pfx s =
     (case expr vs pfx s of
        Inl e \<Rightarrow> Inl e
      | Inr (v, r) \<Rightarrow>
          (let r1 = skipWs r in
           if r1 \<noteq> [] then fail pfx r1 ''Unexpected trailing characters'' else Inr v))"

definition evalExpr :: "variables \<Rightarrow> string \<Rightarrow> string \<Rightarrow> double result" where
  "evalExpr vs e errPrefix = eval vs errPrefix e"

section \<open>Printing a number\<close>

text \<open>
  Insertion of a double into \<^verbatim>\<open>std::cout\<close> after \<^verbatim>\<open>std::setprecision(12)\<close>, with the
  default float-field: the conversion \<^verbatim>\<open>%.12g\<close> of C. The value is rounded to \<open>p\<close>
  significant digits (ties to even); with \<open>X\<close> the decimal exponent of the rounded value,
  the fixed notation is used when \<open>-4 \<le> X < p\<close> and the scientific one otherwise, and
  trailing zeros of the fraction are removed. The sign of a zero or of a NaN is not
  represented.
\<close>

definition round_half_even :: "real \<Rightarrow> int" where
  "round_half_even x =
     (let f = \<lfloor>x\<rfloor>; d = x - of_int f
      in if d < 1 / 2 then f else if 1 / 2 < d then f + 1 else if even f then f else f + 1)"

definition strip_zeros :: "string \<Rightarrow> string" where
  "strip_zeros s = rev (dropWhile (\<lambda>c. c = CHR ''0'') (rev s))"

definition with_fraction :: "string \<Rightarrow> string \<Rightarrow> string" where
  "with_fraction ip fp = (let f = strip_zeros fp in if f = [] then ip else ip @ CHR ''.'' # f)"

definition show_exponent :: "int \<Rightarrow> string" where
  "show_exponent X =
     (let ds = show_nat (nat \<bar>X\<bar>)
      in CHR ''e'' # (if X < 0 then CHR ''-'' else CHR ''+'') # (if length ds < 2 then CHR ''0'' # ds else ds))"

definition show_positive :: "nat \<Rightarrow> real \<Rightarrow> string" where
  "show_positive p x =
     (let e0 = \<lfloor>log 10 x\<rfloor>;
          m = round_half_even (x / 10 powi (e0 - (int p - 1)));
          X = (if m = 10 ^ p then e0 + 1 else e0);
          ds = show_nat (nat (if m = 10 ^ p then 10 ^ (p - 1) else m))
      in if - 4 \<le> X \<and> X < int p then
           (if 0 \<le> X then with_fraction (take (nat X + 1) ds) (drop (nat X + 1) ds)
            else with_fraction ''0'' (replicate (nat (- X - 1)) (CHR ''0'') @ ds))
         else with_fraction (take 1 ds) (drop 1 ds) @ show_exponent X)"

fun show_double :: "nat \<Rightarrow> double \<Rightarrow> string" where
  "show_double p (Num x) =
     (if x = 0 then ''0''
      else if x < 0 then CHR ''-'' # show_positive p (- x)
      else show_positive p x)"
| "show_double p PInf = ''inf''"
| "show_double p NInf = ''-inf''"
| "show_double p NaN = ''nan''"

text \<open>\<^verbatim>\<open>printNumberNicely\<close>: the text written to the output, or \<open>None\<close> when the cast to
  \<^verbatim>\<open>long long\<close> has undefined behaviour.\<close>

definition printNumberNicely :: "double \<Rightarrow> string option" where
  "printNumberNicely v =
     (let rounded = dround v
      in if dlt (dfabs (dsub v rounded)) (Num (1 / 10 ^ 9)) then
           (case cast_long_long rounded of
              None \<Rightarrow> None
            | Some n \<Rightarrow> Some (show_int n @ [newline]))
         else Some (show_double 12 v @ [newline]))"

section \<open>The statement executor\<close>

text \<open>
  The state of the interpreter is the variable store; the model adds the text written to
  \<^verbatim>\<open>std::cout\<close> so far. A result \<open>None\<close> stands for undefined behaviour (a cast of an
  out-of-range double to an integer type).
\<close>

record interp =
  variables :: "string \<rightharpoonup> double"
  cout :: string

definition emit :: "string \<Rightarrow> interp \<Rightarrow> interp" where
  "emit txt st = st\<lparr>cout := cout st @ txt\<rparr>"

text \<open>
  A \<^verbatim>\<open>std::istringstream\<close> over a line is represented by its unread characters.
  \<open>read_token\<close> is the extraction \<^verbatim>\<open>ss >> token\<close> (white space is skipped, then
  characters are taken up to the next white space; nothing is taken at the end of the
  stream and the token stays empty), \<open>read_rest\<close> is \<^verbatim>\<open>std::getline(ss, rest)\<close>.
\<close>

definition read_token :: "string \<Rightarrow> string \<times> string" where
  "read_token ss =
     (let s1 = dropWhile isspace ss
      in (takeWhile (\<lambda>c. \<not> isspace c) s1, dropWhile (\<lambda>c. \<not> isspace c) s1))"

definition read_rest :: "string \<Rightarrow> string" where
  "read_rest ss = takeWhile (\<lambda>c. c \<noteq> newline) ss"

text \<open>The lines that successive calls of \<^verbatim>\<open>std::getline\<close> extract from a stream over a
  text, until the call fails.\<close>

function getlines :: "string \<Rightarrow> string list" where
  "getlines s =
     (if s = [] then []
      else takeWhile (\<lambda>c. c \<noteq> newline) s #
           (case dropWhile (\<lambda>c. c \<noteq> newline) s of [] \<Rightarrow> [] | _ # s' \<Rightarrow> getlines s'))"
  by pat_completeness auto

termination getlines
proof (relation "measure length")
  fix s :: string and c s'
  assume "dropWhile (\<lambda>c. c \<noteq> newline) s = c # s'"
  then have "length (c # s') \<le> length s"
    by (metis length_dropWhile_le)
  then show "(s', s) \<in> measure length" by simp
qed simp

declare getlines.simps [simp del]

text \<open>\<^verbatim>\<open>readBlock\<close>: the block text and the lines left in the stream.\<close>

fun readBlock :: "string list \<Rightarrow> string \<times> string list" where
  "readBlock [] = ([], [])"
| "readBlock (blockLine # stream) =
     (if trim blockLine = '')'' then ([], stream)
      else (let (block, stream') = readBlock stream in (blockLine @ [newline] @ block, stream')))"

definition splitHeaderAndOpenParen :: "string \<Rightarrow> string option" where
  "splitHeaderAndOpenParen line =
     (let t = rtrim line
      in if t = [] then None
         else if last t \<noteq> CHR ''('' then None
         else Some (rtrim (butlast t)))"

text \<open>
  \<^verbatim>\<open>runLine\<close>. In an assignment \<^verbatim>\<open>variables[var] = evalExpr(...)\<close> the right operand is
  evaluated first (C++17), so an exception leaves the store as it was and an unknown
  \<^verbatim>\<open>var\<close> is not visible to the expression.
\<close>

definition print_value :: "double \<Rightarrow> interp \<Rightarrow> interp option" where
  "print_value v st = (case printNumberNicely v of None \<Rightarrow> None | Some txt \<Rightarrow> Some (emit txt st))"

definition runLine :: "string \<Rightarrow> interp \<Rightarrow> interp option" where
  "runLine line st =
     (let t = trim line in
      if t = [] then Some st
      else if starts_with ''comment'' t then Some st
      else
        (let (command, ss1) = read_token t in
         if command = ''print'' then
           (let rest = trim (read_rest ss1) in
            if 2 \<le> length rest \<and> hd rest = dquote \<and> last rest = dquote then
              Some (emit (take (length rest - 2) (drop 1 rest) @ [newline]) st)
            else if rest \<noteq> [] \<and> variables st rest \<noteq> None then
              print_value (the (variables st rest)) st
            else
              (case evalExpr (variables st) rest ''Print expr error: '' of
                 Inr v \<Rightarrow> print_value v st
               | Inl e \<Rightarrow> Some (emit (rest @ [newline]) st)))
         else if command = ''set'' then
           (let (var, ss2) = read_token ss1 in
            if var = [] then
              Some (emit (''Syntax error: set needs a variable name'' @ [newline]) st)
            else
              (let (token, ss3) = read_token ss2 in
               if token \<noteq> ''='' then
                 (let rest = read_rest ss3; e = trim (token @ rest) in
                  case evalExpr (variables st) e ''Set expr error: '' of
                    Inr v \<Rightarrow> Some (st\<lparr>variables := (variables st)(var \<mapsto> v)\<rparr>)
                  | Inl msg \<Rightarrow> Some (emit (msg @ [newline]) st))
               else
                 (let e = trim (read_rest ss3) in
                  if e = [] then
                    Some (emit (''Syntax error: set needs an expression'' @ [newline]) st)
                  else
                    (case evalExpr (variables st) e ''Set expr error: '' of
                       Inr v \<Rightarrow> Some (st\<lparr>variables := (variables st)(var \<mapsto> v)\<rparr>)
                     | Inl msg \<Rightarrow> Some (emit (msg @ [newline]) st)))))
         else if command = ''add'' then
           (let (var, ss2) = read_token ss1 in
            if var = [] then
              Some (emit (''Syntax error: add needs a variable'' @ [newline]) st)
            else if variables st var = None then
              Some (emit (''Error: variable '' @ [quote] @ var @ [quote] @ '' not found'' @ [newline]) st)
            else
              (let e = trim (read_rest ss2) in
               if e = [] then
                 Some (emit (''Syntax error: add needs a value/expression'' @ [newline]) st)
               else
                 (case evalExpr (variables st) e ''Add expr error: '' of
                    Inr v \<Rightarrow>
                      Some (st\<lparr>variables := (variables st)(var \<mapsto> dadd (the (variables st var)) v)\<rparr>)
                  | Inl msg \<Rightarrow> Some (emit (msg @ [newline]) st))))
         else Some (emit (''Unknown command: '' @ command @ [newline]) st)))"

text \<open>
  \<^verbatim>\<open>execute\<close>. The stream over the script is the list of its lines that are still to be
  read; \<open>exec_lines\<close> is the \<^verbatim>\<open>while (std::getline(stream, line))\<close> loop and
  \<open>loop_iter\<close> the \<^verbatim>\<open>for\<close> loop of the \<^verbatim>\<open>loop\<close> command, from the counter \<open>i\<close>.
\<close>

function execute :: "string \<Rightarrow> interp \<Rightarrow> interp option"
  and exec_lines :: "string list \<Rightarrow> interp \<Rightarrow> interp option"
  and loop_iter :: "int \<Rightarrow> int \<Rightarrow> string \<Rightarrow> string \<Rightarrow> interp \<Rightarrow> interp option"
where
  "execute code st = exec_lines (getlines code) st"
| "exec_lines [] st = Some st"
| "exec_lines (raw # stream) st =
     (let line = trim raw in
      if line = [] then exec_lines stream st
      else if starts_with ''comment'' line then exec_lines stream st
      else
        (let (command, ss1) = read_token line in
         if command = ''loop'' then
           (let (varAndCount, ss2) = read_token ss1 in
            if CHR '':'' \<notin> set varAndCount then
              exec_lines stream (emit (''Syntax error: loop expects var:count'' @ [newline]) st)
            else
              (let var = takeWhile (\<lambda>c. c \<noteq> CHR '':'') varAndCount;
                   countExpr = drop 1 (dropWhile (\<lambda>c. c \<noteq> CHR '':'') varAndCount);
                   (openParen, ss3) = read_token ss2
               in
               if openParen \<noteq> ''('' then
                 exec_lines stream (emit (''Syntax error: expected ('' @ [newline]) st)
               else
                 (let (block, stream') = readBlock stream in
                  case evalExpr (variables st) countExpr ''Loop count error: '' of
                    Inl msg \<Rightarrow> exec_lines stream' (emit (msg @ [newline]) st)
                  | Inr c \<Rightarrow>
                      (case cast_int (dfloor c) of
                         None \<Rightarrow> None
                       | Some count \<Rightarrow>
                           (case loop_iter 0 count var block st of
                              None \<Rightarrow> None
                            | Some st' \<Rightarrow> exec_lines stream' st')))))
         else if command = ''if'' then
           (case splitHeaderAndOpenParen line of
              None \<Rightarrow>
                exec_lines stream
                  (emit (''Syntax error: if expects '' @ [quote] @ ''('' @ [quote] @ '' at end of line'' @ [newline]) st)
            | Some headerBeforeParen \<Rightarrow>
                (let condition0 = trim (drop 2 headerBeforeParen);
                     condition1 = (if condition0 \<noteq> [] \<and> hd condition0 = CHR '' '' then drop 1 condition0 else condition0);
                     condition = trim condition1;
                     (block, stream') = readBlock stream
                 in
                 case evalExpr (variables st) condition ''If condition error: '' of
                   Inl msg \<Rightarrow> exec_lines stream' (emit (msg @ [newline]) st)
                 | Inr condVal \<Rightarrow>
                     if dne condVal (Num 0) then
                       (case execute block st of
                          None \<Rightarrow> None
                        | Some st' \<Rightarrow> exec_lines stream' st')
                     else exec_lines stream' st))
         else
           (case runLine line st of
              None \<Rightarrow> None
            | Some st' \<Rightarrow> exec_lines stream st')))"
| "loop_iter i count var block st =
     (if i < count then
        (case execute block (st\<lparr>variables := (variables st)(var \<mapsto> double_of_int i)\<rparr>) of
           None \<Rightarrow> None
         | Some st' \<Rightarrow> loop_iter (i + 1) count var block st')
      else Some st)"
  by pat_completeness auto

subsection \<open>Termination of the executor\<close>

text \<open>A block is shorter than the script it is taken from, and the stream shrinks with
  every line read.\<close>

definition lines_size :: "string list \<Rightarrow> nat" where
  "lines_size ls = sum_list (map (\<lambda>l. Suc (length l)) ls)"

lemma lines_size_simps [simp]:
  "lines_size [] = 0" "lines_size (l # ls) = Suc (length l) + lines_size ls"
  by (simp_all add: lines_size_def)

lemma getlines_size: "lines_size (getlines s) \<le> Suc (length s)"
proof (induct s rule: getlines.induct)
  case (1 s)
  show ?case
  proof (cases "s = []")
    case True
    then show ?thesis by (simp add: getlines.simps)
  next
    case False
    have split: "length (takeWhile (\<lambda>c. c \<noteq> newline) s) + length (dropWhile (\<lambda>c. c \<noteq> newline) s) = length s"
      by (metis length_append takeWhile_dropWhile_id)
    show ?thesis
    proof (cases "dropWhile (\<lambda>c. c \<noteq> newline) s")
      case Nil
      have "getlines s = [takeWhile (\<lambda>c. c \<noteq> newline) s]"
        by (subst getlines.simps) (simp only: False Nil if_False list.case)
      with split show ?thesis by simp
    next
      case (Cons c s')
      have "getlines s = takeWhile (\<lambda>c. c \<noteq> newline) s # getlines s'"
        by (subst getlines.simps) (simp only: False Cons if_False list.case)
      with 1 [OF False Cons] split Cons show ?thesis by simp
    qed
  qed
qed

lemma readBlock_size:
  "readBlock ls = (b, rest) \<Longrightarrow> length b + lines_size rest \<le> lines_size ls"
proof (induct ls arbitrary: b rest)
  case Nil
  then show ?case by simp
next
  case (Cons l ls)
  show ?case
  proof (cases "trim l = '')''")
    case True
    with Cons.prems show ?thesis by auto
  next
    case False
    obtain b' rest' where r: "readBlock ls = (b', rest')" by force
    with Cons.prems False have "b = l @ [newline] @ b'" "rest = rest'" by auto
    with Cons.hyps [OF r] show ?thesis by simp
  qed
qed

lemma trim_Nil [simp]: "trim [] = []"
  by (simp add: trim_def rtrim_def ltrim_def)

definition exec_measure where
  "exec_measure =
     case_sum
       (\<lambda>(code :: string, st :: interp). (Suc (length code), 1 :: nat, 0 :: nat))
       (case_sum
          (\<lambda>(ls, st :: interp). (lines_size ls, 0, 0))
          (\<lambda>(i :: int, count :: int, var :: string, block :: string, st :: interp).
             (Suc (length block), 2, nat (count - i))))"

lemma readBlock_smaller:
  assumes "(b, rest) = readBlock stream" and "trim raw \<noteq> []"
  shows "length b < length raw + lines_size stream
    \<and> lines_size rest < Suc (length raw + lines_size stream)"
proof -
  have "length b + lines_size rest \<le> lines_size stream"
    by (rule readBlock_size [OF assms(1) [symmetric]])
  moreover have "0 < length raw" using assms(2) by (cases raw) simp_all
  ultimately show ?thesis by linarith
qed

termination execute
  apply (relation "inv_image (less_than <*lex*> less_than <*lex*> less_than) exec_measure")
  apply (rule wf_inv_image, rule wf_lex_prod, rule wf_less_than, rule wf_lex_prod,
      rule wf_less_than, rule wf_less_than)
  apply (simp_all add: exec_measure_def)
  apply (simp add: getlines_size le_imp_less_or_eq)
  apply ((drule (1) readBlock_smaller, simp)+)
  done

declare execute.simps [simp del] exec_lines.simps [simp del] loop_iter.simps [simp del]

section \<open>Running the model on concrete input\<close>

text \<open>The equations that evaluate the parser and the executor on a given text.\<close>

lemmas parser_simps = primary.simps call_args.simps unary.simps factor.simps factor_loop.simps
  term_rule.simps term_loop.simps comparison.simps comparison_loop.simps equality.simps
  equality_loop.simps logical_and.simps logical_and_loop.simps logical_or.simps
  logical_or_loop.simps expr.simps

lemmas lex_defs = skipWs_def matchChar_def matchStr_def peek_def parseIdentifier_def
  parseNumber_def scan_number_def scan_fraction_def scan_exponent_part_def scan_exponent_def
  stod_def exponent_val_def digits_val_def digit_val_def isspace_def isdigit_def isalpha_def
  isalnum_def isword_def fail_def power_int_def callFunction_def evalExpr_def eval_def
  dsub_def dne_def deq_def dgt_def dge_def dle_def truthy_def bool_of_double_def

lemmas exec_simps = execute.simps exec_lines.simps loop_iter.simps getlines.simps runLine_def
  read_token_def read_rest_def trim_def ltrim_def rtrim_def starts_with_def emit_def
  splitHeaderAndOpenParen_def print_value_def printNumberNicely_def cast_long_long_def
  cast_int_def rtrunc_def show_int_def show_nat.simps digit_char_def double_of_int_def

section \<open>Nested blocks\<close>

text \<open>The script of five lines: a \<^verbatim>\<open>loop\<close> whose block holds an \<^verbatim>\<open>if\<close> with a block of
  its own.\<close>

definition nested_script :: string where
  "nested_script =
     ''loop i:2 ('' @ [newline] @ ''if i == 1 ('' @ [newline] @ ''print i'' @ [newline]
       @ '')'' @ [newline] @ '')'' @ [newline]"

lemma getlines_nested_script:
  "getlines nested_script = [''loop i:2 ('', ''if i == 1 ('', ''print i'', '')'', '')'']"
  by (simp add: nested_script_def getlines.simps)

lemma nested_script_run:
  "execute nested_script \<lparr>variables = Map.empty, cout = []\<rparr>
     = Some \<lparr>variables = [''i'' \<mapsto> Num 1],
         cout = ''1'' @ [newline] @ ''Unknown command: )'' @ [newline]\<rparr>"
  by (simp add: nested_script_def exec_simps parser_simps lex_defs)

text \<open>\<^verbatim>\<open>readBlock\<close> takes the lines before the first one that is \<^verbatim>\<open>)\<close> once trimmed,
  and removes that line from the stream.\<close>

lemma readBlock_first_close:
  "readBlock stream =
     (concat (map (\<lambda>l. l @ [newline]) (takeWhile (\<lambda>l. trim l \<noteq> '')'') stream)),
      drop 1 (dropWhile (\<lambda>l. trim l \<noteq> '')'') stream))"
  by (induct stream) simp_all

text \<open>
  Claim C1, as amended. For the script whose lines are \<^verbatim>\<open>loop i:2 (\<close>, \<^verbatim>\<open>if i == 1 (\<close>,
  \<^verbatim>\<open>print i\<close>, \<^verbatim>\<open>)\<close>, \<^verbatim>\<open>)\<close>, \<^verbatim>\<open>execute\<close> writes two lines, \<^verbatim>\<open>1\<close> and then
  \<^verbatim>\<open>Unknown command: )\<close>. Block capture ends at the first line that is \<^verbatim>\<open>)\<close> once
  trimmed: the block of the outer \<^verbatim>\<open>loop\<close> holds the opening line and the body of the nested
  block, unparsed, but not its closing line, which closes the outer block; the last line of
  the script is then run as a statement.
\<close>

theorem C1_nested_block:
  "execute nested_script \<lparr>variables = Map.empty, cout = []\<rparr>
     = Some \<lparr>variables = [''i'' \<mapsto> Num 1],
         cout = ''1'' @ [newline] @ ''Unknown command: )'' @ [newline]\<rparr>
   \<and> readBlock (tl (getlines nested_script))
     = (''if i == 1 ('' @ [newline] @ ''print i'' @ [newline], ['')''])
   \<and> readBlock stream =
     (concat (map (\<lambda>l. l @ [newline]) (takeWhile (\<lambda>l. trim l \<noteq> '')'') stream)),
      drop 1 (dropWhile (\<lambda>l. trim l \<noteq> '')'') stream))"
proof (intro conjI)
  show "execute nested_script \<lparr>variables = Map.empty, cout = []\<rparr>
     = Some \<lparr>variables = [''i'' \<mapsto> Num 1],
         cout = ''1'' @ [newline] @ ''Unknown command: )'' @ [newline]\<rparr>"
    by (rule nested_script_run)
  show "readBlock (tl (getlines nested_script))
     = (''if i == 1 ('' @ [newline] @ ''print i'' @ [newline], ['')''])"
    by (simp add: getlines_nested_script trim_def ltrim_def rtrim_def isspace_def)
  show "readBlock stream =
     (concat (map (\<lambda>l. l @ [newline]) (takeWhile (\<lambda>l. trim l \<noteq> '')'') stream)),
      drop 1 (dropWhile (\<lambda>l. trim l \<noteq> '')'') stream))"
    by (rule readBlock_first_close)
qed

text \<open>Claim C1 as stated fails: the output of the script is not the single line \<^verbatim>\<open>1\<close>.\<close>

theorem C1_counterexample:
  "map_option cout (execute nested_script \<lparr>variables = Map.empty, cout = []\<rparr>)
     \<noteq> Some (''1'' @ [newline])"
  by (simp add: nested_script_run)

section \<open>Lines and tokens\<close>

text \<open>The white-space-delimited tokens of a line, in the words of the specification.\<close>

function tokens :: "string \<Rightarrow> string list" where
  "tokens s =
     (let s1 = dropWhile isspace s
      in if s1 = [] then []
         else takeWhile (\<lambda>c. \<not> isspace c) s1 # tokens (dropWhile (\<lambda>c. \<not> isspace c) s1))"
  by pat_completeness auto

lemma dropWhile_eq_ConsD: "dropWhile P xs = c # cs \<Longrightarrow> \<not> P c"
  by (metis hd_dropWhile list.sel(1) list.distinct(1))

lemma dropWhile_nonspace_shorter:
  assumes "s1 = dropWhile isspace s" and "s1 \<noteq> []"
  shows "length (dropWhile (\<lambda>c. \<not> isspace c) s1) < length s"
proof -
  obtain c cs where s1: "s1 = c # cs" using assms(2) by (cases s1) auto
  have "\<not> isspace c"
    by (rule dropWhile_eq_ConsD [of isspace s c cs]) (simp add: assms(1) [symmetric] s1)
  then have "dropWhile (\<lambda>c. \<not> isspace c) s1 = dropWhile (\<lambda>c. \<not> isspace c) cs"
    by (simp add: s1)
  moreover have "length (dropWhile (\<lambda>c. \<not> isspace c) cs) \<le> length cs"
    by (rule length_dropWhile_le)
  moreover have "length s1 \<le> length s"
    unfolding assms(1) by (rule length_dropWhile_le)
  ultimately show ?thesis by (simp add: s1)
qed

termination tokens
  by (relation "measure length") (simp_all add: dropWhile_nonspace_shorter)

declare tokens.simps [simp del]

lemma tokens_read_token:
  "tokens s = (case read_token s of (t, r) \<Rightarrow> if t = [] then [] else t # tokens r)"
proof -
  define s1 where "s1 = dropWhile isspace s"
  have r: "read_token s = (takeWhile (\<lambda>c. \<not> isspace c) s1, dropWhile (\<lambda>c. \<not> isspace c) s1)"
    by (simp add: read_token_def s1_def Let_def)
  have t: "tokens s = (if s1 = [] then []
      else takeWhile (\<lambda>c. \<not> isspace c) s1 # tokens (dropWhile (\<lambda>c. \<not> isspace c) s1))"
    by (subst tokens.simps) (simp add: s1_def Let_def)
  show ?thesis
  proof (cases s1)
    case Nil
    then show ?thesis by (simp add: r t)
  next
    case (Cons c cs)
    have "\<not> isspace c"
      by (rule dropWhile_eq_ConsD [of isspace s c cs]) (simp add: s1_def [symmetric] Cons)
    then show ?thesis by (simp add: r t Cons)
  qed
qed

lemma getlines_Cons:
  assumes "newline \<notin> set l"
  shows "getlines (l @ newline # code) = l # getlines code"
proof -
  have t: "takeWhile (\<lambda>c. c \<noteq> newline) (l @ newline # code) = l"
    using assms by (induct l) auto
  have d: "dropWhile (\<lambda>c. c \<noteq> newline) (l @ newline # code) = newline # code"
    using assms by (induct l) auto
  show ?thesis
    by (subst getlines.simps) (simp only: t d, simp)
qed

lemma execute_Cons:
  "newline \<notin> set l \<Longrightarrow> execute (l @ newline # code) st = exec_lines (l # getlines code) st"
  by (simp add: execute.simps getlines_Cons)

text \<open>Trimming.\<close>

lemma ltrim_idem: "ltrim (ltrim s) = ltrim s"
  unfolding ltrim_def by (rule dropWhile_idem)

lemma rtrim_idem: "rtrim (rtrim s) = rtrim s"
  unfolding rtrim_def by (simp add: dropWhile_idem)

lemma ltrim_rtrim_commute: "ltrim (rtrim s) = rtrim (ltrim s)"
proof (cases "\<forall>c\<in>set s. isspace c")
  case True
  then have "ltrim s = []" "rtrim s = []" by (simp_all add: ltrim_def rtrim_def)
  then show ?thesis by (simp add: ltrim_def [of "[]"] rtrim_def [of "[]"])
next
  case False
  define a where "a = takeWhile isspace s"
  define m where "m = dropWhile isspace s"
  have s: "s = a @ m" by (simp add: a_def m_def)
  have m: "m \<noteq> []" using False by (simp add: m_def)
  then have hm: "\<not> isspace (hd m)" unfolding m_def by (rule hd_dropWhile)
  define z where "z = rev (takeWhile isspace (rev m))"
  define k where "k = rev (dropWhile isspace (rev m))"
  have mk: "m = k @ z"
    by (metis k_def z_def rev_append rev_rev_ident takeWhile_dropWhile_id)
  have "rev m \<noteq> []" using m by simp
  have k: "k \<noteq> []"
  proof
    assume "k = []"
    then have "\<forall>c\<in>set (rev m). isspace c" by (simp add: k_def)
    then have "isspace (hd m)" using m by (cases m) auto
    with hm show False by simp
  qed
  have hk: "\<not> isspace (hd k)" using hm mk k by (cases k) auto
  have za: "\<forall>c\<in>set z. isspace c" "\<forall>c\<in>set a. isspace c"
    by (auto simp: z_def a_def dest: set_takeWhileD)
  have lk: "\<not> isspace (last k)"
  proof -
    have "dropWhile isspace (rev m) \<noteq> []" using k by (simp add: k_def)
    then have "\<not> isspace (hd (dropWhile isspace (rev m)))" by (rule hd_dropWhile)
    then show ?thesis using k by (simp add: k_def last_rev)
  qed
  have r1: "rtrim m = k" by (simp add: rtrim_def k_def)
  have r2: "rtrim s = a @ k"
  proof -
    have "rev s = rev z @ rev k @ rev a" by (simp add: s mk)
    moreover have "dropWhile isspace (rev z @ rev k @ rev a) = dropWhile isspace (rev k @ rev a)"
      using za by (intro dropWhile_append2) simp
    moreover have "dropWhile isspace (rev k @ rev a) = rev k @ rev a"
      using lk k by (cases "rev k") (auto simp: last_rev hd_rev)
    ultimately show ?thesis by (simp add: rtrim_def)
  qed
  have "ltrim (a @ k) = ltrim k"
    unfolding ltrim_def using za by (intro dropWhile_append2) simp
  moreover have "ltrim k = k" using hk k by (cases k) (auto simp: ltrim_def)
  moreover have "ltrim s = m" by (simp add: ltrim_def m_def)
  ultimately show ?thesis by (simp add: r1 r2)
qed

lemma trim_idem [simp]: "trim (trim s) = trim s"
  by (simp add: trim_def ltrim_rtrim_commute [symmetric] ltrim_idem rtrim_idem)


lemma rtrim_decomp:
  obtains z where "s = rtrim s @ z" and "\<forall>c\<in>set z. isspace c"
proof
  show "s = rtrim s @ rev (takeWhile isspace (rev s))"
    by (metis rtrim_def rev_append rev_rev_ident takeWhile_dropWhile_id)
  show "\<forall>c\<in>set (rev (takeWhile isspace (rev s))). isspace c"
    by (auto dest: set_takeWhileD)
qed

lemma tokens_append_space:
  "\<forall>c\<in>set z. isspace c \<Longrightarrow> tokens (k @ z) = tokens k"
proof (induct k rule: tokens.induct)
  case (1 k)
  define s1 where "s1 = dropWhile isspace k"
  have z: "dropWhile isspace z = []" "takeWhile (\<lambda>c. \<not> isspace c) z = []"
    "dropWhile (\<lambda>c. \<not> isspace c) z = z"
    using 1(2) by (cases z; simp)+
  show ?case
  proof (cases "s1 = []")
    case True
    then have "dropWhile isspace (k @ z) = []"
      by (simp add: s1_def dropWhile_append z)
    then show ?thesis
      using True by (simp add: tokens.simps [of k] tokens.simps [of "k @ z"] s1_def)
  next
    case False
    then have d: "dropWhile isspace (k @ z) = s1 @ z"
      by (auto simp: s1_def dropWhile_append)
    have t: "takeWhile (\<lambda>c. \<not> isspace c) (s1 @ z) = takeWhile (\<lambda>c. \<not> isspace c) s1"
    proof (cases "\<forall>x\<in>set s1. \<not> isspace x")
      case True
      then have a: "takeWhile (\<lambda>c. \<not> isspace c) s1 = s1" by simp
      have "takeWhile (\<lambda>c. \<not> isspace c) (s1 @ z) = s1 @ takeWhile (\<lambda>c. \<not> isspace c) z"
        using True by (intro takeWhile_append2) simp
      then show ?thesis unfolding a by (simp add: z)
    next
      case False
      then show ?thesis by (auto simp: takeWhile_append)
    qed
    have r: "dropWhile (\<lambda>c. \<not> isspace c) (s1 @ z) = dropWhile (\<lambda>c. \<not> isspace c) s1 @ z"
      by (simp add: dropWhile_append z)
    have ih: "tokens (dropWhile (\<lambda>c. \<not> isspace c) s1 @ z) = tokens (dropWhile (\<lambda>c. \<not> isspace c) s1)"
      using 1(1) [OF s1_def False 1(2)] .
    have "tokens (k @ z) = takeWhile (\<lambda>c. \<not> isspace c) s1 # tokens (dropWhile (\<lambda>c. \<not> isspace c) s1)"
      using False by (subst tokens.simps) (simp add: d t r ih Let_def)
    moreover have "tokens k = takeWhile (\<lambda>c. \<not> isspace c) s1 # tokens (dropWhile (\<lambda>c. \<not> isspace c) s1)"
      using False by (subst tokens.simps) (simp add: s1_def [symmetric] Let_def)
    ultimately show ?thesis by simp
  qed
qed

lemma tokens_rtrim: "tokens (rtrim s) = tokens s"
proof -
  obtain z where "s = rtrim s @ z" and "\<forall>c\<in>set z. isspace c" by (rule rtrim_decomp)
  then show ?thesis by (metis tokens_append_space)
qed

lemma tokens_ltrim: "tokens (ltrim s) = tokens s"
  unfolding ltrim_def
  by (subst tokens.simps [of "dropWhile isspace s"], subst tokens.simps [of s])
     (simp only: dropWhile_idem)

lemma tokens_trim: "tokens (trim s) = tokens s"
  by (simp add: trim_def tokens_rtrim tokens_ltrim)

lemma tokens_Nil [simp]: "tokens [] = []"
  by (simp add: tokens.simps)

lemma tokens_ConsD:
  assumes "tokens s = t # ts"
  obtains r where "read_token s = (t, r)" and "tokens r = ts" and "t \<noteq> []"
proof -
  obtain t' r where rt: "read_token s = (t', r)" by force
  with assms tokens_read_token [of s] have "t' \<noteq> []" "t' = t" "tokens r = ts"
    by (auto split: if_splits)
  with rt that show ?thesis by simp
qed

lemma tokens_NilD: "tokens s = [] \<Longrightarrow> fst (read_token s) = []"
  using tokens_read_token [of s] by (auto split: prod.splits if_splits)

lemma ltrim_trim: "dropWhile isspace (trim s) = trim s"
proof -
  have "ltrim (trim s) = trim s"
    by (simp add: trim_def ltrim_rtrim_commute ltrim_idem)
  then show ?thesis by (simp add: ltrim_def)
qed

text \<open>The first token of a line and the check for a comment.\<close>

lemma nonspace_comment: "\<forall>c\<in>set ''comment''. \<not> isspace c"
  by (simp add: isspace_def)

lemma starts_with_first_token:
  assumes "read_token t = (tok, r)" and "dropWhile isspace t = t"
    and "\<forall>c\<in>set p. \<not> isspace c"
  shows "starts_with p t = starts_with p tok"
proof -
  have tok: "tok = takeWhile (\<lambda>c. \<not> isspace c) t" and r: "r = dropWhile (\<lambda>c. \<not> isspace c) t"
    using assms(1,2) by (simp_all add: read_token_def Let_def)
  have t: "t = tok @ r" by (simp add: tok r)
  have p: "takeWhile (\<lambda>c. \<not> isspace c) p = p" using assms(3) by simp
  show ?thesis
  proof
    assume "starts_with p t"
    then have e: "take (length p) t = p" by (simp add: starts_with_def)
    then obtain u where u: "t = p @ u" by (metis append_take_drop_id)
    have "takeWhile (\<lambda>c. \<not> isspace c) (p @ u) = p @ takeWhile (\<lambda>c. \<not> isspace c) u"
      using assms(3) by (simp add: takeWhile_append)
    then have "tok = p @ takeWhile (\<lambda>c. \<not> isspace c) u" by (simp add: tok u)
    then show "starts_with p tok" by (simp add: starts_with_def)
  next
    assume "starts_with p tok"
    then have "take (length p) tok = p" by (simp add: starts_with_def)
    then have "length p \<le> length tok" by (metis length_take min.cobounded1 min.commute)
    with \<open>take (length p) tok = p\<close> show "starts_with p t"
      by (simp add: starts_with_def t)
  qed
qed


lemma first_token_of_line:
  assumes "tokens raw = command # ts"
  obtains ss1 where "trim raw \<noteq> []" and "read_token (trim raw) = (command, ss1)"
    and "tokens ss1 = ts"
    and "starts_with ''comment'' (trim raw) = starts_with ''comment'' command"
proof -
  have t: "tokens (trim raw) = command # ts" using assms by (simp add: tokens_trim)
  then obtain ss1 where r: "read_token (trim raw) = (command, ss1)" "tokens ss1 = ts"
    by (rule tokens_ConsD)
  have "trim raw \<noteq> []" using t by auto
  moreover have "starts_with ''comment'' (trim raw) = starts_with ''comment'' command"
    by (rule starts_with_first_token [OF r(1) ltrim_trim nonspace_comment])
  ultimately show ?thesis using r that by blast
qed

lemma exec_lines_comment:
  assumes "tokens raw = command # ts" and "starts_with ''comment'' command"
  shows "exec_lines (raw # stream) st = exec_lines stream st"
proof -
  obtain ss1 where "trim raw \<noteq> []" "starts_with ''comment'' (trim raw)"
    using assms by (auto elim: first_token_of_line)
  then show ?thesis by (simp add: exec_lines.simps)
qed

lemma exec_lines_runLine:
  assumes "tokens raw = command # ts" and "\<not> starts_with ''comment'' command"
    and "command \<noteq> ''loop''" and "command \<noteq> ''if''"
  shows "exec_lines (raw # stream) st =
    (case runLine (trim raw) st of None \<Rightarrow> None | Some st' \<Rightarrow> exec_lines stream st')"
proof -
  obtain ss1 where "trim raw \<noteq> []" "read_token (trim raw) = (command, ss1)"
    "\<not> starts_with ''comment'' (trim raw)"
    using assms(1,2) by (auto elim: first_token_of_line)
  then show ?thesis using assms(3,4) by (simp add: exec_lines.simps)
qed

lemma runLine_unknown:
  assumes "tokens t = command # ts" and "\<not> starts_with ''comment'' command"
    and "command \<noteq> ''print''" and "command \<noteq> ''set''" and "command \<noteq> ''add''"
  shows "runLine t st = Some (emit (''Unknown command: '' @ command @ [newline]) st)"
proof -
  obtain ss1 where "trim t \<noteq> []" "read_token (trim t) = (command, ss1)"
    "\<not> starts_with ''comment'' (trim t)"
    using assms(1,2) by (auto elim: first_token_of_line)
  then show ?thesis using assms(3-) by (simp add: runLine_def)
qed

lemma execute_Nil [simp]: "execute [] st = Some st"
  by (simp add: execute.simps getlines.simps exec_lines.simps)

section \<open>Comments and unknown commands\<close>

text \<open>
  Claim C7, as amended. A non-blank line is silently ignored as a comment exactly when
  its first white-space-delimited token begins with the letters \<^verbatim>\<open>comment\<close> (the source
  tests \<^verbatim>\<open>line.rfind("comment", 0) == 0\<close> on the trimmed line); for every non-blank line
  whose first token does not begin with \<^verbatim>\<open>comment\<close> and is none of \<^verbatim>\<open>print\<close>, \<^verbatim>\<open>set\<close>,
  \<^verbatim>\<open>add\<close>, \<^verbatim>\<open>loop\<close>, \<^verbatim>\<open>if\<close>, the executor writes the unknown-command message naming
  that token and continues with the next line.
\<close>

theorem C7_comment_or_unknown:
  assumes "newline \<notin> set line" and "tokens line = tok # ts"
  shows "(starts_with ''comment'' tok \<longrightarrow> execute (line @ newline # code) st = execute code st)
    \<and> (\<not> starts_with ''comment'' tok
         \<and> tok \<notin> {''print'', ''set'', ''add'', ''loop'', ''if''} \<longrightarrow>
       execute (line @ newline # code) st =
         execute code (emit (''Unknown command: '' @ tok @ [newline]) st))"
proof (intro conjI impI)
  assume "starts_with ''comment'' tok"
  then show "execute (line @ newline # code) st = execute code st"
    using assms by (simp add: execute_Cons exec_lines_comment) (simp add: execute.simps)
next
  assume a: "\<not> starts_with ''comment'' tok
    \<and> tok \<notin> {''print'', ''set'', ''add'', ''loop'', ''if''}"
  have "runLine (trim line) st = Some (emit (''Unknown command: '' @ tok @ [newline]) st)"
    using a assms(2) by (intro runLine_unknown [where ts = ts]) (simp_all add: tokens_trim)
  then have "exec_lines (line # getlines code) st =
      exec_lines (getlines code) (emit (''Unknown command: '' @ tok @ [newline]) st)"
    using a assms(2) by (simp add: exec_lines_runLine [where ts = ts and command = tok])
  then show "execute (line @ newline # code) st =
      execute code (emit (''Unknown command: '' @ tok @ [newline]) st)"
    using assms(1) by (simp add: execute_Cons) (simp add: execute.simps)
qed

lemmas tokens_eval = tokens.simps isspace_def Let_def

theorem C7_witness:
  "newline \<notin> set ''frobnicate 1'' \<and> tokens ''frobnicate 1'' = [''frobnicate'', ''1'']
   \<and> \<not> starts_with ''comment'' ''frobnicate''
   \<and> execute (''frobnicate 1'' @ [newline]) \<lparr>variables = Map.empty, cout = []\<rparr>
       = Some \<lparr>variables = Map.empty, cout = ''Unknown command: frobnicate'' @ [newline]\<rparr>
   \<and> newline \<notin> set ''comment a note'' \<and> tokens ''comment a note'' = [''comment'', ''a'', ''note'']
   \<and> execute (''comment a note'' @ [newline]) \<lparr>variables = Map.empty, cout = []\<rparr>
       = Some \<lparr>variables = Map.empty, cout = []\<rparr>"
proof -
  have n1: "newline \<notin> set ''frobnicate 1''" by simp
  have t1: "tokens ''frobnicate 1'' = [''frobnicate'', ''1'']" by (simp add: tokens_eval)
  have n2: "newline \<notin> set ''comment a note''" by simp
  have t2: "tokens ''comment a note'' = [''comment'', ''a'', ''note'']" by (simp add: tokens_eval)
  have s1: "\<not> starts_with ''comment'' ''frobnicate''" by (simp add: starts_with_def)
  have s2: "starts_with ''comment'' ''comment''" by (simp add: starts_with_def)
  show ?thesis
    using C7_comment_or_unknown [OF n1 t1, of "[]" "\<lparr>variables = Map.empty, cout = []\<rparr>"]
      C7_comment_or_unknown [OF n2 t2, of "[]" "\<lparr>variables = Map.empty, cout = []\<rparr>"]
      n1 t1 n2 t2 s1 s2
    by (simp add: emit_def)
qed

text \<open>Claim C7 as stated fails: the first token of the line \<^verbatim>\<open>commentary\<close> is not the word
  \<^verbatim>\<open>comment\<close> and is no command, yet the line is ignored and no message is written.\<close>

theorem C7_counterexample:
  "tokens ''commentary'' = [''commentary''] \<and> ''commentary'' \<noteq> ''comment''
   \<and> execute (''commentary'' @ [newline]) \<lparr>variables = Map.empty, cout = []\<rparr>
       = Some \<lparr>variables = Map.empty, cout = []\<rparr>"
  by (simp add: tokens_eval exec_simps)


section \<open>The loop statement\<close>

text \<open>The tokens after \<^verbatim>\<open>loop\<close> that the header check accepts: the second token of the
  line holds a colon and the third token is an opening parenthesis.\<close>

definition loop_header_accepted :: "string list \<Rightarrow> bool" where
  "loop_header_accepted ts =
     (case ts of t2 # t3 # _ \<Rightarrow> CHR '':'' \<in> set t2 \<and> t3 = ''('' | _ \<Rightarrow> False)"

definition loop_header_error :: "string list \<Rightarrow> string" where
  "loop_header_error ts =
     (if (case ts of [] \<Rightarrow> True | t2 # _ \<Rightarrow> CHR '':'' \<notin> set t2)
      then ''Syntax error: loop expects var:count''
      else ''Syntax error: expected ('')"

lemma tokens_cases:
  obtains (none) "tokens s = []" "fst (read_token s) = []"
  | (some) t r where "tokens s = t # tokens r" "read_token s = (t, r)" "t \<noteq> []"
proof (cases "tokens s")
  case Nil
  then show ?thesis using none tokens_NilD by blast
next
  case (Cons t ts)
  then obtain r where "read_token s = (t, r)" "tokens r = ts" "t \<noteq> []"
    by (rule tokens_ConsD)
  then show ?thesis using some Cons by blast
qed

lemma exec_lines_loop_rejected:
  assumes "tokens raw = ''loop'' # ts" and "\<not> loop_header_accepted ts"
  shows "exec_lines (raw # stream) st =
    exec_lines stream (emit (loop_header_error ts @ [newline]) st)"
proof -
  obtain ss1 where l: "trim raw \<noteq> []" "read_token (trim raw) = (''loop'', ss1)"
    "tokens ss1 = ts" "\<not> starts_with ''comment'' (trim raw)"
    using assms(1) by (rule first_token_of_line) (simp add: starts_with_def)
  show ?thesis
  proof (cases rule: tokens_cases [of ss1])
    case none
    obtain r2 where r2: "read_token ss1 = ([], r2)" using none(2) by (cases "read_token ss1") auto
    have "ts = []" using none(1) l(3) by simp
    then show ?thesis
      using l r2 by (simp add: exec_lines.simps loop_header_error_def)
  next
    case (some t2 ss2)
    have ts: "ts = t2 # tokens ss2" using some(1) l(3) by simp
    show ?thesis
    proof (cases "CHR '':'' \<in> set t2")
      case False
      then show ?thesis
        using l some(2) ts by (simp add: exec_lines.simps loop_header_error_def)
    next
      case True
      obtain t3 ss3 where r3: "read_token ss2 = (t3, ss3)" by force
      have "t3 \<noteq> ''(''"
      proof (cases rule: tokens_cases [of ss2])
        case none
        then show ?thesis using r3 by auto
      next
        case (some t3' r)
        then show ?thesis using r3 assms(2) ts True by (auto simp: loop_header_accepted_def)
      qed
      then show ?thesis
        using l some(2) ts True r3 by (simp add: exec_lines.simps loop_header_error_def)
    qed
  qed
qed

text \<open>
  Claim C10, as amended. A loop header is accepted only when the second token of the line
  holds the colon of \<^verbatim>\<open>var:countExpr\<close> and the third token is exactly \<^verbatim>\<open>(\<close>. For every
  loop statement whose tokens are not so (as when white space inside the count expression
  is followed by anything but a lone parenthesis: \<^verbatim>\<open>loop i:n + 1 (\<close>), the executor writes
  a syntax error, reads no block and runs no iteration: it continues with the line after
  the header.
\<close>

theorem C10_loop_header:
  assumes "newline \<notin> set line" and "tokens line = ''loop'' # ts"
    and "\<not> loop_header_accepted ts"
  shows "execute (line @ newline # code) st =
    execute code (emit (loop_header_error ts @ [newline]) st)
    \<and> starts_with ''Syntax error'' (loop_header_error ts)"
proof
  show "execute (line @ newline # code) st =
      execute code (emit (loop_header_error ts @ [newline]) st)"
    using assms by (simp add: execute_Cons exec_lines_loop_rejected) (simp add: execute.simps)
  show "starts_with ''Syntax error'' (loop_header_error ts)"
    by (simp add: loop_header_error_def starts_with_def)
qed

theorem C10_witness:
  "newline \<notin> set ''loop i:n + 1 (''
   \<and> tokens ''loop i:n + 1 ('' = [''loop'', ''i:n'', ''+'', ''1'', ''('']
   \<and> \<not> loop_header_accepted [''i:n'', ''+'', ''1'', ''('']
   \<and> execute (''loop i:n + 1 ('' @ newline # ''print 7'' @ [newline])
        \<lparr>variables = Map.empty, cout = []\<rparr>
      = Some \<lparr>variables = Map.empty,
          cout = ''Syntax error: expected ('' @ [newline] @ ''7'' @ [newline]\<rparr>"
proof -
  have n: "newline \<notin> set ''loop i:n + 1 (''" by simp
  have t: "tokens ''loop i:n + 1 ('' = ''loop'' # [''i:n'', ''+'', ''1'', ''('']"
    by (simp add: tokens_eval)
  have a: "\<not> loop_header_accepted [''i:n'', ''+'', ''1'', ''('']"
    by (simp add: loop_header_accepted_def)
  have e: "execute (''print 7'' @ [newline])
      (emit (''Syntax error: expected ('' @ [newline]) \<lparr>variables = Map.empty, cout = []\<rparr>)
      = Some \<lparr>variables = Map.empty,
          cout = ''Syntax error: expected ('' @ [newline] @ ''7'' @ [newline]\<rparr>"
    by (simp add: exec_simps parser_simps lex_defs)
  show ?thesis
    using C10_loop_header [OF n t a, of "''print 7'' @ [newline]"
        "\<lparr>variables = Map.empty, cout = []\<rparr>"] n t a e
    by (simp add: loop_header_error_def)
qed

text \<open>Claim C10 as stated fails: the count expression \<^verbatim>\<open>sqrt ( 4 )\<close> has white space
  inside, yet the header \<^verbatim>\<open>loop i:sqrt ( 4 ) (\<close> is accepted, with the count expression
  \<^verbatim>\<open>sqrt\<close>; when a variable of that name holds 2 the block runs twice and no error is
  written.\<close>

definition spaced_count_script :: string where
  "spaced_count_script =
     ''set sqrt = 2'' @ [newline] @ ''loop i:sqrt ( 4 ) ('' @ [newline] @ ''print i'' @ [newline]
       @ '')'' @ [newline]"

theorem C10_counterexample:
  "execute spaced_count_script \<lparr>variables = Map.empty, cout = []\<rparr>
     = Some \<lparr>variables = [''sqrt'' \<mapsto> Num 2, ''i'' \<mapsto> Num 1],
         cout = ''0'' @ [newline] @ ''1'' @ [newline]\<rparr>"
  by (simp add: spaced_count_script_def exec_simps parser_simps lex_defs)


text \<open>The iterations of a loop, in the words of the specification: for the values of
  \<open>i\<close> in turn, store \<open>i\<close> into the loop variable, then execute the block.\<close>

fun run_iterations :: "string \<Rightarrow> string \<Rightarrow> int list \<Rightarrow> interp \<Rightarrow> interp option" where
  "run_iterations var block [] st = Some st"
| "run_iterations var block (i # is) st =
     (case execute block (st\<lparr>variables := (variables st)(var \<mapsto> double_of_int i)\<rparr>) of
        None \<Rightarrow> None
      | Some st' \<Rightarrow> run_iterations var block is st')"

lemma loop_iter_run_iterations:
  "loop_iter i N var block st = run_iterations var block [i..N - 1] st"
proof (induct "nat (N - i)" arbitrary: i st)
  case 0
  then have "\<not> i < N" by simp
  then show ?case by (simp add: loop_iter.simps)
next
  case (Suc n)
  then have lt: "i < N" and n: "n = nat (N - (i + 1))" by simp_all
  have u: "[i..N - 1] = i # [i + 1..N - 1]" using lt by (simp add: upto_rec1)
  show ?case
    using lt Suc(1) [OF n] by (subst loop_iter.simps) (simp add: u split: option.splits)
qed

lemma run_iterations_append:
  "run_iterations var block (xs @ ys) st =
    (case run_iterations var block xs st of
       None \<Rightarrow> None
     | Some st' \<Rightarrow> run_iterations var block ys st')"
  by (induct xs arbitrary: st) (simp_all split: option.splits)

lemma run_iterations_last:
  assumes "run_iterations var block (xs @ [k]) st = Some st'"
    and "\<forall>s s'. execute block s = Some s' \<longrightarrow> variables s' var = variables s var"
  shows "variables st' var = Some (double_of_int k)"
proof -
  obtain s1 where "run_iterations var block [k] s1 = Some st'"
    using assms(1) by (auto simp: run_iterations_append split: option.splits)
  then have "execute block (s1\<lparr>variables := (variables s1)(var \<mapsto> double_of_int k)\<rparr>) = Some st'"
    by (simp split: option.splits)
  with assms(2) show ?thesis by fastforce
qed

lemma exec_lines_loop_accepted:
  assumes "tokens raw = ''loop'' # t2 # ''('' # ts" and "CHR '':'' \<in> set t2"
  shows "exec_lines (raw # stream) st =
    (let var = takeWhile (\<lambda>c. c \<noteq> CHR '':'') t2;
         countExpr = drop 1 (dropWhile (\<lambda>c. c \<noteq> CHR '':'') t2);
         (block, stream') = readBlock stream
     in case evalExpr (variables st) countExpr ''Loop count error: '' of
          Inl msg \<Rightarrow> exec_lines stream' (emit (msg @ [newline]) st)
        | Inr c \<Rightarrow>
            (case cast_int (dfloor c) of
               None \<Rightarrow> None
             | Some count \<Rightarrow>
                 (case loop_iter 0 count var block st of
                    None \<Rightarrow> None
                  | Some st' \<Rightarrow> exec_lines stream' st')))"
proof -
  obtain ss1 where l: "trim raw \<noteq> []" "read_token (trim raw) = (''loop'', ss1)"
    "tokens ss1 = t2 # ''('' # ts" "\<not> starts_with ''comment'' (trim raw)"
    using assms(1) by (rule first_token_of_line) (simp add: starts_with_def)
  obtain ss2 where r2: "read_token ss1 = (t2, ss2)" "tokens ss2 = ''('' # ts"
    using l(3) by (rule tokens_ConsD)
  obtain ss3 where r3: "read_token ss2 = (''('', ss3)"
    using r2(2) by (rule tokens_ConsD)
  show ?thesis
    using l r2 r3 assms(2) by (simp add: exec_lines.simps Let_def)
qed

text \<open>
  Claim C3, as amended. For every \<^verbatim>\<open>loop var:countExpr (\<close> statement whose count expression
  evaluates to a value \<open>c\<close> with \<open>floor c\<close> in the range of \<^verbatim>\<open>int\<close>, the executor runs the
  captured block \<open>N = floor c\<close> times when \<open>N > 0\<close> and zero times, writing nothing, when
  \<open>N \<le> 0\<close>; on iteration \<open>i\<close>, from 0 to \<open>N - 1\<close>, it first stores \<open>i\<close> into the variable and
  then executes the block. After a loop with \<open>N \<ge> 1\<close> the store maps the variable to
  \<open>N - 1\<close> when the block leaves the variable as it finds it (the block may assign it:
  there is no scoping).
\<close>

theorem C3_loop_iterations:
  assumes "tokens line = ''loop'' # (var @ CHR '':'' # countExpr) # ''('' # ts"
    and "CHR '':'' \<notin> set var"
    and "evalExpr (variables st) countExpr ''Loop count error: '' = Inr (Num x)"
    and "- (2 ^ 31) \<le> \<lfloor>x\<rfloor>" and "\<lfloor>x\<rfloor> < 2 ^ 31"
    and "readBlock stream = (block, stream')"
  shows "exec_lines (line # stream) st =
      (case run_iterations var block [0..\<lfloor>x\<rfloor> - 1] st of
         None \<Rightarrow> None
       | Some st' \<Rightarrow> exec_lines stream' st')
    \<and> length [0..\<lfloor>x\<rfloor> - 1] = nat \<lfloor>x\<rfloor>
    \<and> (\<lfloor>x\<rfloor> \<le> 0 \<longrightarrow> run_iterations var block [0..\<lfloor>x\<rfloor> - 1] st = Some st)
    \<and> (1 \<le> \<lfloor>x\<rfloor> \<and> run_iterations var block [0..\<lfloor>x\<rfloor> - 1] st = Some st'
         \<and> (\<forall>s s'. execute block s = Some s' \<longrightarrow> variables s' var = variables s var) \<longrightarrow>
       variables st' var = Some (double_of_int (\<lfloor>x\<rfloor> - 1)))"
proof (intro conjI impI)
  have v: "takeWhile (\<lambda>c. c \<noteq> CHR '':'') (var @ CHR '':'' # countExpr) = var"
    using assms(2) by (induct var) auto
  have e: "drop (Suc 0) (dropWhile (\<lambda>c. c \<noteq> CHR '':'') (var @ CHR '':'' # countExpr)) = countExpr"
    using assms(2) by (induct var) auto
  have c: "cast_int (Num (of_int \<lfloor>x\<rfloor>)) = Some \<lfloor>x\<rfloor>"
    using assms(4,5) by (simp add: cast_int_def rtrunc_def)
  show "exec_lines (line # stream) st =
      (case run_iterations var block [0..\<lfloor>x\<rfloor> - 1] st of
         None \<Rightarrow> None
       | Some st' \<Rightarrow> exec_lines stream' st')"
    by (subst exec_lines_loop_accepted [OF assms(1)])
       (simp_all add: v e c assms(3,6) loop_iter_run_iterations del: upto.simps)
  show "length [0..\<lfloor>x\<rfloor> - 1] = nat \<lfloor>x\<rfloor>" by simp
next
  assume "\<lfloor>x\<rfloor> \<le> 0"
  then show "run_iterations var block [0..\<lfloor>x\<rfloor> - 1] st = Some st" by simp
next
  assume a: "1 \<le> \<lfloor>x\<rfloor> \<and> run_iterations var block [0..\<lfloor>x\<rfloor> - 1] st = Some st'
    \<and> (\<forall>s s'. execute block s = Some s' \<longrightarrow> variables s' var = variables s var)"
  then have "[0..\<lfloor>x\<rfloor> - 1] = [0..\<lfloor>x\<rfloor> - 1 - 1] @ [\<lfloor>x\<rfloor> - 1]"
    by (intro upto_rec2) simp
  with a show "variables st' var = Some (double_of_int (\<lfloor>x\<rfloor> - 1))"
    by (metis run_iterations_last)
qed


lemma add_block_keeps_loop_variable:
  "execute (''add total i'' @ [newline]) s = Some s' \<Longrightarrow> variables s' ''i'' = variables s ''i''"
  by (auto simp: exec_simps isspace_def split: if_splits sum.splits)

text \<open>What a test observes of a final state: the values of \<^verbatim>\<open>total\<close> and \<^verbatim>\<open>i\<close>, and
  the output.\<close>

definition observe :: "interp option \<Rightarrow> (double option \<times> double option \<times> string) option" where
  "observe r = map_option (\<lambda>s. (variables s ''total'', variables s ''i'', cout s)) r"

theorem C3_witness:
  "tokens ''loop i:3 ('' = ''loop'' # (''i'' @ CHR '':'' # ''3'') # ''('' # []
   \<and> CHR '':'' \<notin> set ''i''
   \<and> evalExpr [''total'' \<mapsto> Num 0] ''3'' ''Loop count error: '' = Inr (Num 3)
   \<and> readBlock [''add total i'', '')''] = (''add total i'' @ [newline], [])
   \<and> observe (exec_lines [''loop i:3 ('', ''add total i'', '')'']
        \<lparr>variables = [''total'' \<mapsto> Num 0], cout = []\<rparr>)
      = Some (Some (Num 3), Some (double_of_int (3 - 1)), [])"
proof -
  let ?st = "\<lparr>variables = [''total'' \<mapsto> Num 0], cout = []\<rparr>"
  have t: "tokens ''loop i:3 ('' = ''loop'' # (''i'' @ CHR '':'' # ''3'') # ''('' # []"
    by (simp add: tokens_eval)
  have c: "CHR '':'' \<notin> set ''i''" by simp
  have e: "evalExpr (variables ?st) ''3'' ''Loop count error: '' = Inr (Num 3)"
    by (simp add: parser_simps lex_defs)
  have b: "readBlock [''add total i'', '')''] = (''add total i'' @ [newline], [])"
    by (simp add: trim_def ltrim_def rtrim_def isspace_def)
  have f: "- (2 ^ 31) \<le> \<lfloor>3 :: real\<rfloor>" "\<lfloor>3 :: real\<rfloor> < 2 ^ 31" by simp_all
  obtain st' where r: "run_iterations ''i'' (''add total i'' @ [newline]) [0..2] ?st = Some st'"
    and o: "variables st' ''total'' = Some (Num 3)" "cout st' = []"
    by (simp add: exec_simps parser_simps lex_defs upto.simps)
  have k: "\<forall>s s'. execute (''add total i'' @ [newline]) s = Some s' \<longrightarrow>
      variables s' ''i'' = variables s ''i''"
    using add_block_keeps_loop_variable by blast
  note C3_loop_iterations [OF t c e f b, of st']
  then have "exec_lines [''loop i:3 ('', ''add total i'', '')''] ?st = Some st'"
    and "variables st' ''i'' = Some (double_of_int (\<lfloor>3 :: real\<rfloor> - 1))"
    using r k by (simp_all add: exec_lines.simps)
  then show ?thesis using t c e b o by (simp add: observe_def)
qed

text \<open>Claim C3 as stated fails: the block may assign the loop variable, and after this
  loop of two iterations the variable holds 10, not 1.\<close>

definition loop_assign_script :: string where
  "loop_assign_script =
     ''loop i:2 ('' @ [newline] @ ''set i = 10'' @ [newline] @ '')'' @ [newline]"

theorem C3_counterexample:
  "execute loop_assign_script \<lparr>variables = Map.empty, cout = []\<rparr>
     = Some \<lparr>variables = [''i'' \<mapsto> Num 10], cout = []\<rparr>
   \<and> Num 10 \<noteq> double_of_int (2 - 1)"
  by (simp add: loop_assign_script_def exec_simps parser_simps lex_defs)

section \<open>Single-line statements\<close>

text \<open>Strings of white space, and strings without white space.\<close>

definition spaces :: "string \<Rightarrow> bool" where
  "spaces w = (\<forall>c\<in>set w. isspace c)"

definition word :: "string \<Rightarrow> bool" where
  "word t = (t \<noteq> [] \<and> (\<forall>c\<in>set t. \<not> isspace c))"

definition ends_word :: "string \<Rightarrow> bool" where
  "ends_word r = (case r of [] \<Rightarrow> True | c # _ \<Rightarrow> isspace c)"

lemma ltrim_spaces_word: "spaces w \<Longrightarrow> word t \<Longrightarrow> ltrim (w @ t @ r) = t @ r"
proof -
  assume w: "spaces w" and t: "word t"
  have "dropWhile isspace (w @ t @ r) = dropWhile isspace (t @ r)"
    using w by (intro dropWhile_append2) (simp add: spaces_def)
  moreover have "dropWhile isspace (t @ r) = t @ r"
    using t by (cases t) (auto simp: word_def)
  ultimately show ?thesis by (simp add: ltrim_def)
qed

lemma dropWhile_rev_last: "xs \<noteq> [] \<Longrightarrow> \<not> P (last xs) \<Longrightarrow> dropWhile P (rev xs) = rev xs"
  by (cases xs rule: rev_cases) auto

lemma rtrim_word: "word t \<Longrightarrow> rtrim (a @ t @ r) = a @ t @ rtrim r"
proof -
  assume t: "word t"
  obtain z where z: "r = rtrim r @ z" "\<forall>c\<in>set z. isspace c" by (rule rtrim_decomp)
  define k where "k = rtrim r"
  have kl: "k = [] \<or> \<not> isspace (last k)"
  proof (cases "dropWhile isspace (rev r)")
    case Nil
    then show ?thesis by (simp add: k_def rtrim_def)
  next
    case (Cons c cs)
    then have "\<not> isspace c" by (rule dropWhile_eq_ConsD)
    then show ?thesis using Cons by (simp add: k_def rtrim_def)
  qed
  have l: "\<not> isspace (last (a @ t @ k))"
    using t kl by (cases "k = []") (auto simp: word_def)
  have ne: "a @ t @ k \<noteq> []" using t by (simp add: word_def)
  have "a @ t @ r = (a @ t @ k) @ z"
    using z(1) by (simp add: k_def)
  then have "rev (a @ t @ r) = rev z @ rev (a @ t @ k)"
    by (simp only: rev_append)
  moreover have "dropWhile isspace (rev z @ rev (a @ t @ k)) = dropWhile isspace (rev (a @ t @ k))"
    using z(2) by (intro dropWhile_append2) simp
  moreover have "dropWhile isspace (rev (a @ t @ k)) = rev (a @ t @ k)"
    using ne l by (rule dropWhile_rev_last)
  ultimately have "rtrim (a @ t @ r) = a @ t @ k"
    by (simp add: rtrim_def)
  then show ?thesis by (simp add: k_def)
qed

lemma trim_spaces_word: "spaces w \<Longrightarrow> word t \<Longrightarrow> trim (w @ t @ r) = t @ rtrim r"
  using rtrim_word [of t "[]" r] by (simp add: trim_def ltrim_spaces_word)

lemma rtrim_prefix_ends_word: "ends_word r \<Longrightarrow> ends_word (rtrim r)"
proof -
  assume e: "ends_word r"
  obtain z where z: "r = rtrim r @ z" by (rule rtrim_decomp)
  show ?thesis
  proof (cases "rtrim r")
    case Nil
    then show ?thesis by (simp add: ends_word_def)
  next
    case (Cons c cs)
    with z have "r = c # cs @ z" by simp
    with e Cons show ?thesis by (simp add: ends_word_def)
  qed
qed

lemma read_token_word:
  assumes "spaces w" and "word t" and "ends_word r"
  shows "read_token (w @ t @ r) = (t, r)"
proof -
  have d: "dropWhile isspace (w @ t @ r) = t @ r"
    using ltrim_spaces_word [OF assms(1,2)] by (simp add: ltrim_def)
  have t: "takeWhile (\<lambda>c. \<not> isspace c) (t @ r) = t @ takeWhile (\<lambda>c. \<not> isspace c) r"
    using assms(2) by (intro takeWhile_append2) (simp add: word_def)
  have dr: "dropWhile (\<lambda>c. \<not> isspace c) (t @ r) = dropWhile (\<lambda>c. \<not> isspace c) r"
    using assms(2) by (intro dropWhile_append2) (simp add: word_def)
  have r: "takeWhile (\<lambda>c. \<not> isspace c) r = []" "dropWhile (\<lambda>c. \<not> isspace c) r = r"
    using assms(3) by (cases r; simp add: ends_word_def)+
  show ?thesis by (simp add: read_token_def Let_def d t dr r)
qed

lemma read_rest_no_newline: "newline \<notin> set s \<Longrightarrow> read_rest s = s"
  by (auto simp: read_rest_def)

lemma set_rtrim_subset: "set (rtrim s) \<subseteq> set s"
  by (metis rtrim_decomp Un_iff set_append subsetI)

lemma trim_rtrim: "trim (rtrim s) = trim s"
  by (simp add: trim_def ltrim_rtrim_commute rtrim_idem)

lemma starts_with_word:
  "starts_with p (t @ r) = starts_with p t" if "word t" "ends_word r" "\<forall>c\<in>set p. \<not> isspace c"
proof -
  have "read_token (t @ r) = (t, r)"
    using read_token_word [of "[]" t r] that by (simp add: spaces_def)
  moreover have "dropWhile isspace (t @ r) = t @ r"
    using ltrim_spaces_word [of "[]" t r] that by (simp add: spaces_def ltrim_def)
  ultimately show ?thesis using that(3) by (rule starts_with_first_token)
qed


lemma ends_word_spaces: "spaces w \<Longrightarrow> w \<noteq> [] \<Longrightarrow> ends_word (w @ r)"
  by (cases w) (simp_all add: ends_word_def spaces_def)

lemma trim_word_rtrim: "word t \<Longrightarrow> trim (t @ rtrim r) = trim (t @ r)"
proof -
  assume t: "word t"
  have "ltrim (t @ rtrim r) = t @ rtrim r" "ltrim (t @ r) = t @ r"
    using ltrim_spaces_word [of "[]" t] t by (simp_all add: spaces_def)
  moreover have "rtrim (t @ rtrim r) = t @ rtrim r" "rtrim (t @ r) = t @ rtrim r"
    using rtrim_word [of t "[]"] t by (simp_all add: rtrim_idem)
  ultimately show ?thesis by (simp add: trim_def)
qed

lemma word_print: "word ''print''" and word_set: "word ''set''" and word_eq: "word ''=''"
  by (simp_all add: word_def isspace_def)

lemma comment_nonspace: "\<forall>c\<in>set ''comment''. \<not> isspace c"
  by (simp add: isspace_def)

text \<open>What \<open>runLine\<close> reads from a line that begins with a keyword.\<close>

lemma runLine_keyword:
  assumes "spaces w" and "word k" and "ends_word r" and "\<not> starts_with ''comment'' k"
  shows "trim (w @ k @ r) = k @ rtrim r"
    and "(k @ rtrim r = []) = False"
    and "starts_with ''comment'' (k @ rtrim r) = False"
    and "read_token (k @ rtrim r) = (k, rtrim r)"
proof -
  show "trim (w @ k @ r) = k @ rtrim r"
    using assms(1,2) by (rule trim_spaces_word)
  have e: "ends_word (rtrim r)" using assms(3) by (rule rtrim_prefix_ends_word)
  show "(k @ rtrim r = []) = False" using assms(2) by (simp add: word_def)
  show "starts_with ''comment'' (k @ rtrim r) = False"
    using assms(4) starts_with_word [OF assms(2) e comment_nonspace] by simp
  show "read_token (k @ rtrim r) = (k, rtrim r)"
    using read_token_word [of "[]" k "rtrim r"] assms(2) e by (simp add: spaces_def)
qed

lemma runLine_print:
  assumes "spaces w" and "ends_word r"
  shows "runLine (w @ ''print'' @ r) st =
     (if 2 \<le> length (trim (read_rest (rtrim r))) \<and> hd (trim (read_rest (rtrim r))) = dquote
          \<and> last (trim (read_rest (rtrim r))) = dquote then
        Some (emit (take (length (trim (read_rest (rtrim r))) - 2)
                      (drop 1 (trim (read_rest (rtrim r)))) @ [newline]) st)
      else if trim (read_rest (rtrim r)) \<noteq> [] \<and> variables st (trim (read_rest (rtrim r))) \<noteq> None then
        print_value (the (variables st (trim (read_rest (rtrim r))))) st
      else
        (case evalExpr (variables st) (trim (read_rest (rtrim r))) ''Print expr error: '' of
           Inr v \<Rightarrow> print_value v st
         | Inl e \<Rightarrow> Some (emit (trim (read_rest (rtrim r)) @ [newline]) st)))"
proof -
  have nc: "\<not> starts_with ''comment'' ''print''" by (simp add: starts_with_def)
  note k = runLine_keyword [OF assms(1) word_print assms(2) nc]
  show ?thesis
    unfolding runLine_def [of "w @ ''print'' @ r"] k Let_def if_False prod.case
    by simp
qed

lemma runLine_set:
  assumes "spaces w" and "ends_word r"
  shows "runLine (w @ ''set'' @ r) st =
     (case read_token (rtrim r) of (var, ss2) \<Rightarrow>
        if var = [] then
          Some (emit (''Syntax error: set needs a variable name'' @ [newline]) st)
        else
          (case read_token ss2 of (token, ss3) \<Rightarrow>
             if token \<noteq> ''='' then
               (case evalExpr (variables st) (trim (token @ read_rest ss3)) ''Set expr error: '' of
                  Inr v \<Rightarrow> Some (st\<lparr>variables := (variables st)(var \<mapsto> v)\<rparr>)
                | Inl msg \<Rightarrow> Some (emit (msg @ [newline]) st))
             else if trim (read_rest ss3) = [] then
               Some (emit (''Syntax error: set needs an expression'' @ [newline]) st)
             else
               (case evalExpr (variables st) (trim (read_rest ss3)) ''Set expr error: '' of
                  Inr v \<Rightarrow> Some (st\<lparr>variables := (variables st)(var \<mapsto> v)\<rparr>)
                | Inl msg \<Rightarrow> Some (emit (msg @ [newline]) st))))"
proof -
  have nc: "\<not> starts_with ''comment'' ''set''" by (simp add: starts_with_def)
  note k = runLine_keyword [OF assms(1) word_set assms(2) nc]
  show ?thesis
    unfolding runLine_def [of "w @ ''set'' @ r"] k Let_def if_False prod.case
    by simp
qed

section \<open>The print statement\<close>

text \<open>The text of a value that is not near an integer, on an example: \<open>5 / 2\<close> is written
  as \<^verbatim>\<open>2.5\<close>.\<close>

lemma floor_log_five_halves: "\<lfloor>log 10 (5 / 2 :: real)\<rfloor> = 0"
proof -
  have "0 \<le> log 10 (5 / 2 :: real)" by simp
  moreover have "log 10 (5 / 2 :: real) < 1"
    using log_less_cancel_iff [of 10 "5 / 2" 10] by simp
  ultimately show ?thesis by (simp add: floor_eq_iff)
qed

lemma round_half_even_of_int: "round_half_even (of_int n) = n"
  by (simp add: round_half_even_def)

lemma scaled_five_halves: "(5 / 2 :: real) / 10 powi (0 - (int 12 - 1)) = of_int 250000000000"
proof -
  have "(10 :: real) powi (0 - (int 12 - 1)) = 1 / 10 ^ 11"
    by (simp add: power_int_def divide_simps)
  then show ?thesis by simp
qed

lemma show_nat_five_halves: "show_nat 250000000000 = ''250000000000''"
  by (simp add: show_nat.simps digit_char_def)

lemma show_double_five_halves: "show_double 12 (Num (5 / 2)) = ''2.5''"
proof -
  have "show_positive 12 (5 / 2) = ''2.5''"
    unfolding show_positive_def floor_log_five_halves scaled_five_halves
      round_half_even_of_int Let_def
    by (simp add: show_nat_five_halves with_fraction_def strip_zeros_def)
  then show ?thesis by simp
qed

lemma printNumberNicely_five_halves:
  "printNumberNicely (Num (5 / 2)) = Some (''2.5'' @ [newline])"
  by (simp add: printNumberNicely_def dsub_def show_double_five_halves del: show_double.simps)

text \<open>
  C6. A line made of the word \<^verbatim>\<open>print\<close> and a remainder whose trimmed text \<open>rest\<close> is
  neither enclosed in double quotes nor the name of an existing variable. When the
  evaluation of \<open>rest\<close> fails, the output is \<open>rest\<close> followed by a line feed, whatever the
  error message was, and the variables are unchanged. When \<open>rest\<close> evaluates to a value
  \<open>v\<close> for which \<^verbatim>\<open>printNumberNicely\<close> has a defined result \<open>txt\<close>, the output is \<open>txt\<close>. For
  a value \<open>v\<close> whose conversion to \<^verbatim>\<open>long long\<close> in \<^verbatim>\<open>printNumberNicely\<close> is undefined, the
  statement has no defined result: nothing guarantees that the formatted value is
  printed.
\<close>

theorem C6_print_expression:
  assumes "spaces w" and "ends_word r" and "newline \<notin> set r"
    and "rest = trim r"
    and "\<not> (2 \<le> length rest \<and> hd rest = dquote \<and> last rest = dquote)"
    and "variables st rest = None"
  shows "runLine (w @ ''print'' @ r) st =
     (case evalExpr (variables st) rest ''Print expr error: '' of
        Inr v \<Rightarrow>
          (case printNumberNicely v of
             Some txt \<Rightarrow> Some (st\<lparr>cout := cout st @ txt\<rparr>)
           | None \<Rightarrow> None)
      | Inl msg \<Rightarrow> Some (st\<lparr>cout := cout st @ rest @ [newline]\<rparr>))"
proof -
  have "newline \<notin> set (rtrim r)" using assms(3) set_rtrim_subset [of r] by auto
  then have rr: "read_rest (rtrim r) = rtrim r" by (rule read_rest_no_newline)
  show ?thesis
    unfolding runLine_print [OF assms(1,2)] rr trim_rtrim assms(4) [symmetric]
    using assms(5,6) by (auto simp: emit_def print_value_def split: sum.splits option.splits)
qed

theorem C6_witness:
  "runLine ''print 2 +'' \<lparr>variables = Map.empty, cout = []\<rparr>
     = Some \<lparr>variables = Map.empty, cout = ''2 +'' @ [newline]\<rparr>
   \<and> runLine ''print 2 + 3'' \<lparr>variables = Map.empty, cout = []\<rparr>
     = Some \<lparr>variables = Map.empty, cout = ''5'' @ [newline]\<rparr>
   \<and> runLine ''print 5 / 2'' \<lparr>variables = Map.empty, cout = []\<rparr>
     = Some \<lparr>variables = Map.empty, cout = ''2.5'' @ [newline]\<rparr>"
proof -
  let ?st = "\<lparr>variables = Map.empty, cout = []\<rparr>"
  have w: "spaces []" by (simp add: spaces_def)
  have a: "ends_word '' 2 +''" "newline \<notin> set '' 2 +''" "''2 +'' = trim '' 2 +''"
    "\<not> (2 \<le> length ''2 +'' \<and> hd ''2 +'' = dquote \<and> last ''2 +'' = dquote)"
    "variables ?st ''2 +'' = None"
    by (simp_all add: ends_word_def isspace_def trim_def ltrim_def rtrim_def)
  have b: "ends_word '' 2 + 3''" "newline \<notin> set '' 2 + 3''" "''2 + 3'' = trim '' 2 + 3''"
    "\<not> (2 \<le> length ''2 + 3'' \<and> hd ''2 + 3'' = dquote \<and> last ''2 + 3'' = dquote)"
    "variables ?st ''2 + 3'' = None"
    by (simp_all add: ends_word_def isspace_def trim_def ltrim_def rtrim_def)
  have c: "ends_word '' 5 / 2''" "newline \<notin> set '' 5 / 2''" "''5 / 2'' = trim '' 5 / 2''"
    "\<not> (2 \<le> length ''5 / 2'' \<and> hd ''5 / 2'' = dquote \<and> last ''5 / 2'' = dquote)"
    "variables ?st ''5 / 2'' = None"
    by (simp_all add: ends_word_def isspace_def trim_def ltrim_def rtrim_def)
  have e: "evalExpr Map.empty ''5 / 2'' ''Print expr error: '' = Inr (Num (5 / 2))"
    by (simp add: parser_simps lex_defs)
  have "runLine ([] @ ''print'' @ '' 2 +'') ?st = Some \<lparr>variables = Map.empty, cout = ''2 +'' @ [newline]\<rparr>"
    unfolding C6_print_expression [OF w a] by (simp add: parser_simps lex_defs)
  moreover
  have "runLine ([] @ ''print'' @ '' 2 + 3'') ?st = Some \<lparr>variables = Map.empty, cout = ''5'' @ [newline]\<rparr>"
    unfolding C6_print_expression [OF w b] by (simp add: parser_simps lex_defs exec_simps)
  moreover
  have "runLine ([] @ ''print'' @ '' 5 / 2'') ?st = Some \<lparr>variables = Map.empty, cout = ''2.5'' @ [newline]\<rparr>"
    unfolding C6_print_expression [OF w c] by (simp add: e printNumberNicely_five_halves)
  ultimately show ?thesis by simp
qed

text \<open>
  The text \<^verbatim>\<open>10000000000000000000\<close> evaluates to \<open>10^19\<close>, an integer outside the range of
  \<^verbatim>\<open>long long\<close>: the statement \<^verbatim>\<open>print 10000000000000000000\<close> reaches the undefined
  conversion of \<^verbatim>\<open>printNumberNicely\<close> and does not print the digits of its value.
\<close>

theorem C6_out_of_range:
  "evalExpr Map.empty ''10000000000000000000'' ''Print expr error: ''
     = Inr (Num 10000000000000000000)
   \<and> runLine ''print 10000000000000000000'' \<lparr>variables = Map.empty, cout = []\<rparr> = None"
proof -
  have e: "evalExpr Map.empty ''10000000000000000000'' ''Print expr error: ''
      = Inr (Num 10000000000000000000)"
    by (simp add: parser_simps lex_defs)
  have p: "printNumberNicely (Num 10000000000000000000) = None"
    by (simp add: printNumberNicely_def dsub_def cast_long_long_def rtrunc_def)
  have t: "trim (''print 10000000000000000000'') = ''print 10000000000000000000''"
    by (simp add: trim_def ltrim_def rtrim_def isspace_def)
  have "runLine ''print 10000000000000000000'' \<lparr>variables = Map.empty, cout = []\<rparr> = None"
    by (simp add: runLine_def t starts_with_def read_token_def read_rest_def isspace_def
        trim_def ltrim_def rtrim_def e p print_value_def)
  with e show ?thesis by simp
qed

section \<open>The set statement\<close>

text \<open>
  C4. A line made of the word \<^verbatim>\<open>set\<close>, a variable name \<open>var\<close> and either the token
  \<^verbatim>\<open>=\<close> followed by a non-empty expression text, or directly an expression text whose
  first token is not \<^verbatim>\<open>=\<close>; \<open>e\<close> is the trimmed expression text. When \<open>e\<close> evaluates to a
  value, the statement binds \<open>var\<close> to that value and writes nothing; when the
  evaluation fails with a message, the statement writes the message and a line feed
  and leaves the variables as they were. (The right operand of the assignment
  \<^verbatim>\<open>variables[var] = evalExpr(...)\<close> is evaluated before the left one.)
\<close>

theorem C4_set_statement:
  assumes "spaces w0" and "spaces w1" and "w1 \<noteq> []" and "spaces w2" and "w2 \<noteq> []"
    and "word var" and "word tok" and "ends_word r" and "newline \<notin> set r"
    and "tok = ''='' \<and> e = trim r \<and> e \<noteq> [] \<or> tok \<noteq> ''='' \<and> e = trim (tok @ r)"
  shows "runLine (w0 @ ''set'' @ w1 @ var @ w2 @ tok @ r) st =
     (case evalExpr (variables st) e ''Set expr error: '' of
        Inr v \<Rightarrow> Some (st\<lparr>variables := (variables st)(var \<mapsto> v)\<rparr>)
      | Inl msg \<Rightarrow> Some (st\<lparr>cout := cout st @ msg @ [newline]\<rparr>))"
proof -
  have e1: "ends_word (w1 @ var @ w2 @ tok @ r)"
    using assms(2,3) by (rule ends_word_spaces)
  have rt: "rtrim (w1 @ var @ w2 @ tok @ r) = w1 @ var @ w2 @ tok @ rtrim r"
    using rtrim_word [OF assms(7), of "w1 @ var @ w2" r] by simp
  have e2: "ends_word (w2 @ tok @ rtrim r)"
    using assms(4,5) by (rule ends_word_spaces)
  have r1: "read_token (w1 @ var @ w2 @ tok @ rtrim r) = (var, w2 @ tok @ rtrim r)"
    using assms(2,6) e2 by (rule read_token_word)
  have e3: "ends_word (rtrim r)" using assms(8) by (rule rtrim_prefix_ends_word)
  have r2: "read_token (w2 @ tok @ rtrim r) = (tok, rtrim r)"
    using assms(4,7) e3 by (rule read_token_word)
  have "newline \<notin> set (rtrim r)" using assms(9) set_rtrim_subset [of r] by auto
  then have rr: "read_rest (rtrim r) = rtrim r" by (rule read_rest_no_newline)
  have v: "var \<noteq> []" using assms(6) by (simp add: word_def)
  have run: "runLine (w0 @ ''set'' @ w1 @ var @ w2 @ tok @ r) st =
     (if tok \<noteq> ''='' then
        (case evalExpr (variables st) (trim (tok @ r)) ''Set expr error: '' of
           Inr v \<Rightarrow> Some (st\<lparr>variables := (variables st)(var \<mapsto> v)\<rparr>)
         | Inl msg \<Rightarrow> Some (emit (msg @ [newline]) st))
      else if trim r = [] then
        Some (emit (''Syntax error: set needs an expression'' @ [newline]) st)
      else
        (case evalExpr (variables st) (trim r) ''Set expr error: '' of
           Inr v \<Rightarrow> Some (st\<lparr>variables := (variables st)(var \<mapsto> v)\<rparr>)
         | Inl msg \<Rightarrow> Some (emit (msg @ [newline]) st)))"
    unfolding runLine_set [OF assms(1) e1] rt r1 r2 rr prod.case trim_rtrim
      trim_word_rtrim [OF assms(7)]
    using v by simp
  from assms(10) show ?thesis
  proof
    assume "tok = ''='' \<and> e = trim r \<and> e \<noteq> []"
    then have "tok = ''=''" and "trim r = e" and "e \<noteq> []" by auto
    then show ?thesis unfolding run by (simp add: emit_def split: sum.splits)
  next
    assume "tok \<noteq> ''='' \<and> e = trim (tok @ r)"
    then have "tok \<noteq> ''=''" and "trim (tok @ r) = e" by auto
    then show ?thesis unfolding run by (simp add: emit_def split: sum.splits)
  qed
qed

theorem C4_witness:
  "runLine ''set x = 5 + 3*2'' \<lparr>variables = Map.empty, cout = []\<rparr>
     = Some \<lparr>variables = [''x'' \<mapsto> Num 11], cout = []\<rparr>
   \<and> runLine ''set y 1 +'' \<lparr>variables = [''x'' \<mapsto> Num 11], cout = []\<rparr>
     = Some \<lparr>variables = [''x'' \<mapsto> Num 11],
          cout = ''Set expr error: Expected primary expression near: '' @ [quote, quote, newline]\<rparr>"
proof -
  have w: "spaces []" "spaces '' ''" "'' '' \<noteq> []" "spaces '' ''" "'' '' \<noteq> []"
    by (simp_all add: spaces_def isspace_def)
  have a: "word ''x''" "word ''=''" "ends_word '' 5 + 3*2''" "newline \<notin> set '' 5 + 3*2''"
    "''='' = ''='' \<and> ''5 + 3*2'' = trim '' 5 + 3*2'' \<and> ''5 + 3*2'' \<noteq> []
       \<or> ''='' \<noteq> ''='' \<and> ''5 + 3*2'' = trim (''='' @ '' 5 + 3*2'')"
    by (simp_all add: word_def ends_word_def isspace_def trim_def ltrim_def rtrim_def)
  have b: "word ''y''" "word ''1''" "ends_word '' +''" "newline \<notin> set '' +''"
    "''1'' = ''='' \<and> ''1 +'' = trim '' +'' \<and> ''1 +'' \<noteq> []
       \<or> ''1'' \<noteq> ''='' \<and> ''1 +'' = trim (''1'' @ '' +'')"
    by (simp_all add: word_def ends_word_def isspace_def trim_def ltrim_def rtrim_def)
  have "runLine ([] @ ''set'' @ '' '' @ ''x'' @ '' '' @ ''='' @ '' 5 + 3*2'')
          \<lparr>variables = Map.empty, cout = []\<rparr>
        = Some \<lparr>variables = [''x'' \<mapsto> Num 11], cout = []\<rparr>"
    unfolding C4_set_statement [OF w a] by (simp add: parser_simps lex_defs)
  moreover
  have "runLine ([] @ ''set'' @ '' '' @ ''y'' @ '' '' @ ''1'' @ '' +'')
          \<lparr>variables = [''x'' \<mapsto> Num 11], cout = []\<rparr>
        = Some \<lparr>variables = [''x'' \<mapsto> Num 11],
             cout = ''Set expr error: Expected primary expression near: '' @ [quote, quote, newline]\<rparr>"
    unfolding C4_set_statement [OF w b] by (simp add: parser_simps lex_defs)
  ultimately show ?thesis by simp
qed

section \<open>Number literals\<close>

text \<open>The text after an exponent marker holds no exponent: after an optional sign
  there is no digit.\<close>

definition no_exponent_digits :: "string \<Rightarrow> bool" where
  "no_exponent_digits t =
     (case (if t \<noteq> [] \<and> (hd t = CHR ''+'' \<or> hd t = CHR ''-'') then tl t else t) of
        [] \<Rightarrow> True
      | d # _ \<Rightarrow> \<not> isdigit d)"

lemma scan_digits:
  assumes "list_all isdigit ds" and "r = [] \<or> \<not> isdigit (hd r)"
  shows "takeWhile isdigit (ds @ r) = ds" and "dropWhile isdigit (ds @ r) = r"
proof -
  have r: "takeWhile isdigit r = []" "dropWhile isdigit r = r"
    using assms(2) by (cases r; simp)+
  have a: "\<forall>c\<in>set ds. isdigit c" using assms(1) by (simp add: list_all_iff)
  show "takeWhile isdigit (ds @ r) = ds"
    using takeWhile_append2 [of ds isdigit r] a r by simp
  show "dropWhile isdigit (ds @ r) = r"
    using dropWhile_append2 [of ds isdigit r] a r by simp
qed

lemma scan_exponent_rollback:
  assumes "e = CHR ''e'' \<or> e = CHR ''E''" and "no_exponent_digits t"
  shows "scan_exponent_part (e # t) = ([], e # t)"
proof -
  have "scan_exponent (e # t) = None"
  proof (cases t)
    case Nil
    with assms(1) show ?thesis by (auto simp: scan_exponent_def)
  next
    case (Cons c t')
    show ?thesis
    proof (cases "c = CHR ''+'' \<or> c = CHR ''-''")
      case True
      with assms(2) Cons have "takeWhile isdigit t' = []"
        by (cases t') (auto simp: no_exponent_digits_def)
      with True assms(1) Cons show ?thesis by (auto simp: scan_exponent_def)
    next
      case False
      with assms(2) Cons have "\<not> isdigit c" by (simp add: no_exponent_digits_def)
      with False assms(1) Cons show ?thesis by (auto simp: scan_exponent_def)
    qed
  qed
  then show ?thesis by (simp add: scan_exponent_part_def)
qed

lemma marker_not_digit: "e = CHR ''e'' \<or> e = CHR ''E'' \<Longrightarrow> \<not> isdigit e \<and> e \<noteq> CHR ''.''"
  by (auto simp: isdigit_def)

lemma scan_fraction_marker:
  assumes "e = CHR ''e'' \<or> e = CHR ''E''"
    and "fpart = [] \<or> fpart = CHR ''.'' # fp" and "list_all isdigit fp"
  shows "scan_fraction (fpart @ e # t) = (fpart, e # t)"
proof -
  have d: "takeWhile isdigit (fp @ e # t) = fp" "dropWhile isdigit (fp @ e # t) = e # t"
    using scan_digits [OF assms(3), of "e # t"] marker_not_digit [OF assms(1)] by simp_all
  from assms(2) show ?thesis
  proof
    assume "fpart = []"
    then show ?thesis using marker_not_digit [OF assms(1)] by (simp add: scan_fraction_def)
  next
    assume "fpart = CHR ''.'' # fp"
    then show ?thesis by (simp add: scan_fraction_def d)
  qed
qed

lemma scan_number_rollback:
  assumes "e = CHR ''e'' \<or> e = CHR ''E''" and "no_exponent_digits t"
    and "dot = [] \<or> dot = ''.''" and "list_all isdigit ip" and "dot \<noteq> [] \<or> ip \<noteq> []"
    and "fpart = [] \<or> fpart = CHR ''.'' # fp" and "list_all isdigit fp"
  shows "scan_number (dot @ ip @ fpart @ e # t) = (dot @ ip @ fpart, e # t, ip \<noteq> [] \<or> 1 < length fpart)"
proof -
  have nd: "fpart @ e # t = [] \<or> \<not> isdigit (hd (fpart @ e # t))"
    using assms(6) marker_not_digit [OF assms(1)] by (auto simp: isdigit_def)
  have d: "takeWhile isdigit (ip @ fpart @ e # t) = ip" "dropWhile isdigit (ip @ fpart @ e # t) = fpart @ e # t"
    using scan_digits [OF assms(4) nd] by simp_all
  note f = scan_fraction_marker [OF assms(1,6,7), of t]
  note x = scan_exponent_rollback [OF assms(1,2)]
  from assms(3) show ?thesis
  proof
    assume dot: "dot = []"
    with assms(5) obtain c ip' where ip: "ip = c # ip'" by (cases ip) auto
    with assms(4) have c: "isdigit c" by simp
    then have "c \<noteq> CHR ''.''" by (auto simp: isdigit_def)
    with c d show ?thesis unfolding dot ip
      by (simp add: scan_number_def f x)
  next
    assume dot: "dot = ''.''"
    show ?thesis unfolding dot
      by (simp add: scan_number_def d f x)
  qed
qed

text \<open>
  C9. The input holds, after white space \<open>w\<close>, a mantissa \<open>m\<close> (an optional point,
  digits \<open>ip\<close>, an optional point with digits \<open>fp\<close>), an exponent marker \<open>e\<close> and a text
  \<open>t\<close> that, after an optional sign, does not begin with a digit. Then the scan of the
  literal consumes \<open>m\<close> only and leaves the marker unread; the position of the scanner
  is that of the marker; when \<open>m\<close> holds a digit, the value of the literal is that of
  \<open>m\<close> and parsing goes on from the marker.
\<close>

theorem C9_exponent_rollback:
  assumes "e = CHR ''e'' \<or> e = CHR ''E''" and "no_exponent_digits t"
    and "dot = [] \<or> dot = ''.''" and "list_all isdigit ip" and "dot \<noteq> [] \<or> ip \<noteq> []"
    and "fpart = [] \<or> fpart = CHR ''.'' # fp" and "list_all isdigit fp"
    and "m = dot @ ip @ fpart" and "list_all isspace w"
  shows "scan_number (m @ e # t) = (m, e # t, ip \<noteq> [] \<or> 1 < length fpart)
     \<and> scan_pos (w @ m @ e # t) (e # t) = length w + length m
     \<and> (w @ m @ e # t) ! scan_pos (w @ m @ e # t) (e # t) = e
     \<and> parseNumber errPrefix (w @ m @ e # t) =
         (if ip \<noteq> [] \<or> 1 < length fpart
          then (case stod m of Inl x \<Rightarrow> Inl x | Inr v \<Rightarrow> Inr (v, e # t))
          else fail errPrefix (e # t) ''Expected number'')"
proof -
  have s: "scan_number (m @ e # t) = (m, e # t, ip \<noteq> [] \<or> 1 < length fpart)"
    using scan_number_rollback [OF assms(1-7)] by (simp add: assms(8))
  have p: "scan_pos (w @ m @ e # t) (e # t) = length w + length m"
    by (simp add: scan_pos_def)
  have n: "(w @ m @ e # t) ! (length w + length m) = e"
    by (simp add: nth_append)
  have m: "m \<noteq> []" using assms(5,8) by auto
  then obtain c m' where c: "m = c # m'" by (cases m) auto
  have "c = CHR ''.'' \<or> isdigit c"
    using assms(3,4,5,8) c by (cases ip) auto
  then have "\<not> isspace c" by (auto simp: isspace_def isdigit_def Let_def)
  then have "dropWhile isspace (m @ e # t) = m @ e # t" by (simp add: c)
  moreover have "dropWhile isspace (w @ m @ e # t) = dropWhile isspace (m @ e # t)"
    using assms(9) by (intro dropWhile_append2) (simp add: list_all_iff)
  ultimately have w: "skipWs (w @ m @ e # t) = m @ e # t" by (simp add: skipWs_def)
  have "parseNumber errPrefix (w @ m @ e # t) =
         (if ip \<noteq> [] \<or> 1 < length fpart
          then (case stod m of Inl x \<Rightarrow> Inl x | Inr v \<Rightarrow> Inr (v, e # t))
          else fail errPrefix (e # t) ''Expected number'')"
    using m by (simp add: parseNumber_def w s)
  with s p n show ?thesis by simp
qed

theorem C9_witness:
  "parseNumber ''E: '' ''2e'' = Inr (Num 2, ''e'')
   \<and> parseNumber ''E: '' '' 1.5E+x'' = Inr (Num (3 / 2), ''E+x'')
   \<and> scan_pos '' 1.5E+x'' ''E+x'' = 4"
proof -
  have a: "CHR ''e'' = CHR ''e'' \<or> CHR ''e'' = CHR ''E''" "no_exponent_digits []"
    "[] = [] \<or> [] = ''.''" "list_all isdigit ''2''" "[] \<noteq> [] \<or> ''2'' \<noteq> []"
    "[] = [] \<or> [] = CHR ''.'' # []" "list_all isdigit []" "''2'' = [] @ ''2'' @ []"
    "list_all isspace []"
    by (simp_all add: no_exponent_digits_def isdigit_def)
  have b: "CHR ''E'' = CHR ''e'' \<or> CHR ''E'' = CHR ''E''" "no_exponent_digits ''+x''"
    "[] = [] \<or> [] = ''.''" "list_all isdigit ''1''" "[] \<noteq> [] \<or> ''1'' \<noteq> []"
    "''.5'' = [] \<or> ''.5'' = CHR ''.'' # ''5''" "list_all isdigit ''5''" "''1.5'' = [] @ ''1'' @ ''.5''"
    "list_all isspace '' ''"
    by (simp_all add: no_exponent_digits_def isdigit_def isspace_def)
  have s2: "stod ''2'' = Inr (Num 2)" and s15: "stod ''1.5'' = Inr (Num (3 / 2))"
    by (simp_all add: lex_defs)
  show ?thesis
    using C9_exponent_rollback [OF a, of "''E: ''"] C9_exponent_rollback [OF b, of "''E: ''"]
    by (simp add: s2 s15)
qed

section \<open>Printing near-integers\<close>

text \<open>
  C8. Let \<open>n\<close> be \<^verbatim>\<open>round(v)\<close> for a finite value \<open>v = x\<close>. When \<open>x\<close> is closer than \<open>1e-9\<close> to
  \<open>n\<close> and \<open>n\<close> is in the range of \<^verbatim>\<open>long long\<close>, the output is the decimal integer \<open>n\<close>
  and a line feed; when \<open>x\<close> is not that close to \<open>n\<close>, the output is \<open>x\<close> with a precision
  of 12 significant digits and a line feed.
\<close>

theorem C8_print_number:
  assumes "dround (Num x) = Num (of_int n)"
    and "\<bar>x - of_int n\<bar> < 1 / 10 ^ 9 \<longrightarrow> - (2 ^ 63) \<le> n \<and> n < 2 ^ 63"
  shows "printNumberNicely (Num x) =
     Some ((if \<bar>x - of_int n\<bar> < 1 / 10 ^ 9 then show_int n else show_double 12 (Num x)) @ [newline])"
proof -
  have "rtrunc (of_int n) = n" by (simp add: rtrunc_def)
  then show ?thesis
    using assms(2)
    by (simp add: printNumberNicely_def assms(1) dsub_def cast_long_long_def Let_def
        del: dround.simps)
qed

theorem C8_witness:
  "printNumberNicely (Num 4.000000000001) = Some (''4'' @ [newline])
   \<and> printNumberNicely (Num (- 7)) = Some (''-7'' @ [newline])
   \<and> printNumberNicely (Num 2.5) = Some (show_double 12 (Num 2.5) @ [newline])"
proof -
  have a: "dround (Num 4.000000000001) = Num (of_int 4)"
    "\<bar>4.000000000001 - of_int 4\<bar> < (1 :: real) / 10 ^ 9 \<longrightarrow> - (2 ^ 63) \<le> (4 :: int) \<and> (4 :: int) < 2 ^ 63"
    by simp_all
  have b: "dround (Num (- 7)) = Num (of_int (- 7))"
    "\<bar>- 7 - of_int (- 7)\<bar> < (1 :: real) / 10 ^ 9 \<longrightarrow> - (2 ^ 63) \<le> (- 7 :: int) \<and> (- 7 :: int) < 2 ^ 63"
    by simp_all
  have c: "dround (Num 2.5) = Num (of_int 3)"
    "\<bar>2.5 - of_int 3\<bar> < (1 :: real) / 10 ^ 9 \<longrightarrow> - (2 ^ 63) \<le> (3 :: int) \<and> (3 :: int) < 2 ^ 63"
    by simp_all
  show ?thesis
    using C8_print_number [OF a] C8_print_number [OF b] C8_print_number [OF c]
    by (simp add: show_int_def show_nat.simps digit_char_def)
qed

text \<open>
  The value \<open>10^19\<close> is an integer, hence within the tolerance of its nearest integer,
  but it is not in the range of \<^verbatim>\<open>long long\<close>: the conversion
  \<^verbatim>\<open>static_cast<long long>(rounded)\<close> has no defined result and the routine does not write
  the digits of \<open>10^19\<close>.
\<close>

theorem C8_out_of_range:
  "printNumberNicely (Num 10000000000000000000) = None"
  by (simp add: printNumberNicely_def dsub_def cast_long_long_def rtrunc_def)

section \<open>The parser, one character ahead\<close>

lemma skipWs_idem [simp]: "skipWs (skipWs r) = skipWs r"
  by (simp add: skipWs_def dropWhile_idem)

lemma skipWs_Nil [simp]: "skipWs [] = []"
  by (simp add: skipWs_def)

lemma skipWs_ConsD: "skipWs r = c # r' \<Longrightarrow> \<not> isspace c"
  unfolding skipWs_def by (rule dropWhile_eq_ConsD)

lemma skipWs_nonspace: "\<not> isspace c \<Longrightarrow> skipWs (c # r) = c # r"
  by (simp add: skipWs_def)

lemma skipWs_spaces: "spaces w \<Longrightarrow> skipWs (w @ r) = skipWs r"
  unfolding skipWs_def spaces_def by (rule dropWhile_append2) simp

lemma skipWs_append: "skipWs s \<noteq> [] \<Longrightarrow> skipWs (s @ r) = skipWs s @ r"
  unfolding skipWs_def by (induct s) auto

lemma matchChar_cases:
  "matchChar c r =
     (case skipWs r of [] \<Rightarrow> (False, []) | x # xs \<Rightarrow> if x = c then (True, xs) else (False, x # xs))"
  by (simp add: matchChar_def Let_def split: list.splits)

lemma matchStr_cases:
  "matchStr t r =
     (if length t \<le> length (skipWs r) \<and> take (length t) (skipWs r) = t
      then (True, drop (length t) (skipWs r)) else (False, skipWs r))"
  by (simp add: matchStr_def Let_def)

lemma peek_cases:
  "peek r = (case skipWs r of [] \<Rightarrow> (CHR 0x00, []) | x # xs \<Rightarrow> (x, x # xs))"
  by (simp add: peek_def Let_def split: list.splits)

lemma unary_Cons:
  assumes "skipWs r = c # r'"
  shows "unary vs pfx r =
     (if c = CHR ''+'' then unary vs pfx r'
      else if c = CHR ''-'' then
        (case unary vs pfx r' of Inl e \<Rightarrow> Inl e | Inr (v, r3) \<Rightarrow> Inr (dneg v, r3))
      else if c = CHR ''!'' then
        (case unary vs pfx r' of
           Inl e \<Rightarrow> Inl e
         | Inr (v, r4) \<Rightarrow> Inr (if bool_of_double (truthy v) then Num 0 else Num 1, r4))
      else primary vs pfx (c # r'))"
proof -
  have "\<not> isspace c" using assms by (rule skipWs_ConsD)
  then have k: "skipWs (c # r') = c # r'" by (rule skipWs_nonspace)
  show ?thesis
    by (subst unary.simps) (simp add: matchChar_cases assms k Let_def)
qed

lemma primary_Cons:
  assumes "skipWs r = c # r'"
  shows "primary vs pfx r =
     (if c = CHR ''('' then
        (case expr vs pfx r' of
           Inl e \<Rightarrow> Inl e
         | Inr (v, r2) \<Rightarrow>
             (case skipWs r2 of
                [] \<Rightarrow> fail pfx [] (''Expected '' @ [quote] @ '')'' @ [quote])
              | x # xs \<Rightarrow> if x = CHR '')'' then Inr (v, xs)
                          else fail pfx (x # xs) (''Expected '' @ [quote] @ '')'' @ [quote])))
      else if isalpha c \<or> c = CHR ''_'' then
        (case skipWs (dropWhile isword r') of
           [] \<Rightarrow> (case vs (c # takeWhile isword r') of
                    Some v \<Rightarrow> Inr (v, [])
                  | None \<Rightarrow> fail pfx [] (''Unknown variable: '' @ c # takeWhile isword r'))
         | x # xs \<Rightarrow>
             if x = CHR ''('' then
               (case skipWs xs of
                  [] \<Rightarrow> (case call_args vs pfx [] [] of
                           Inl e \<Rightarrow> Inl e
                         | Inr (args, r8) \<Rightarrow>
                             (case callFunction pfx r8 (c # takeWhile isword r') args of
                                Inl e \<Rightarrow> Inl e | Inr v \<Rightarrow> Inr (v, r8)))
                | y # ys \<Rightarrow>
                    if y = CHR '')'' then
                      (case callFunction pfx ys (c # takeWhile isword r') [] of
                         Inl e \<Rightarrow> Inl e | Inr v \<Rightarrow> Inr (v, ys))
                    else
                      (case call_args vs pfx [] (y # ys) of
                         Inl e \<Rightarrow> Inl e
                       | Inr (args, r8) \<Rightarrow>
                           (case callFunction pfx r8 (c # takeWhile isword r') args of
                              Inl e \<Rightarrow> Inl e | Inr v \<Rightarrow> Inr (v, r8))))
             else
               (case vs (c # takeWhile isword r') of
                  Some v \<Rightarrow> Inr (v, x # xs)
                | None \<Rightarrow> fail pfx (x # xs) (''Unknown variable: '' @ c # takeWhile isword r')))
      else if isdigit c \<or> c = CHR ''.'' then parseNumber pfx (c # r')
      else fail pfx (c # r') ''Expected primary expression'')"
proof -
  have "\<not> isspace c" using assms by (rule skipWs_ConsD)
  then have k: "skipWs (c # r') = c # r'" by (rule skipWs_nonspace)
  show ?thesis
    by (subst primary.simps)
      (auto simp: matchChar_cases peek_cases parseIdentifier_def assms k Let_def
        split: list.splits sum.splits)
qed


lemma call_args_cases:
  "call_args vs pfx args r =
     (case expr vs pfx r of
        Inl e \<Rightarrow> Inl e
      | Inr (v, r1) \<Rightarrow>
          (case skipWs r1 of
             [] \<Rightarrow> fail pfx [] (''Expected '' @ [quote] @ '','' @ [quote] @ '' or '' @ [quote] @ '')'' @ [quote])
           | x # xs \<Rightarrow>
               if x = CHR '')'' then Inr (args @ [v], xs)
               else if x = CHR '','' then call_args vs pfx (args @ [v]) xs
               else fail pfx (x # xs) (''Expected '' @ [quote] @ '','' @ [quote] @ '' or '' @ [quote] @ '')'' @ [quote])))"
proof -
  have k: "skipWs (c # r') = c # r'" if "skipWs r1 = c # r'" for r1 c r'
    using that by (intro skipWs_nonspace) (rule skipWs_ConsD)
  show ?thesis
    by (subst call_args.simps)
      (auto simp: matchChar_cases k Let_def split: list.splits sum.splits)
qed

lemma factor_loop_Nil:
  assumes "skipWs r = []"
  shows "factor_loop vs pfx v r = Inr (v, [])"
  by (subst factor_loop.simps) (simp add: matchChar_cases assms Let_def)

lemma factor_loop_Cons:
  assumes "skipWs r = c # r'"
  shows "factor_loop vs pfx v r =
     (if c = CHR ''*'' then
        (case unary vs pfx r' of Inl e \<Rightarrow> Inl e | Inr (u, r2) \<Rightarrow> factor_loop vs pfx (dmul v u) r2)
      else if c = CHR ''/'' then
        (case unary vs pfx r' of Inl e \<Rightarrow> Inl e | Inr (u, r2) \<Rightarrow> factor_loop vs pfx (ddiv v u) r2)
      else if c = CHR ''%'' then
        (case unary vs pfx r' of Inl e \<Rightarrow> Inl e | Inr (u, r2) \<Rightarrow> factor_loop vs pfx (dfmod v u) r2)
      else Inr (v, c # r'))"
proof -
  have "\<not> isspace c" using assms by (rule skipWs_ConsD)
  then have k: "skipWs (c # r') = c # r'" by (rule skipWs_nonspace)
  show ?thesis
    by (subst factor_loop.simps) (simp add: matchChar_cases assms k Let_def)
qed

lemma term_loop_Nil:
  assumes "skipWs r = []"
  shows "term_loop vs pfx v r = Inr (v, [])"
  by (subst term_loop.simps) (simp add: matchChar_cases assms Let_def)

lemma term_loop_Cons:
  assumes "skipWs r = c # r'"
  shows "term_loop vs pfx v r =
     (if c = CHR ''+'' then
        (case factor vs pfx r' of Inl e \<Rightarrow> Inl e | Inr (u, r2) \<Rightarrow> term_loop vs pfx (dadd v u) r2)
      else if c = CHR ''-'' then
        (case factor vs pfx r' of Inl e \<Rightarrow> Inl e | Inr (u, r2) \<Rightarrow> term_loop vs pfx (dsub v u) r2)
      else Inr (v, c # r'))"
proof -
  have "\<not> isspace c" using assms by (rule skipWs_ConsD)
  then have k: "skipWs (c # r') = c # r'" by (rule skipWs_nonspace)
  show ?thesis
    by (subst term_loop.simps) (simp add: matchChar_cases assms k Let_def)
qed

lemma comparison_loop_Nil:
  assumes "skipWs r = []"
  shows "comparison_loop vs pfx v r = Inr (v, [])"
  by (subst comparison_loop.simps) (simp add: matchChar_cases matchStr_cases assms Let_def)

lemma comparison_loop_Cons:
  assumes "skipWs r = c # r'"
  shows "comparison_loop vs pfx v r =
     (if c = CHR ''>'' \<and> take 1 r' = ''='' then
        (case term_rule vs pfx (drop 1 r') of
           Inl e \<Rightarrow> Inl e
         | Inr (u, r2) \<Rightarrow> comparison_loop vs pfx (if dge v u then Num 1 else Num 0) r2)
      else if c = CHR ''<'' \<and> take 1 r' = ''='' then
        (case term_rule vs pfx (drop 1 r') of
           Inl e \<Rightarrow> Inl e
         | Inr (u, r2) \<Rightarrow> comparison_loop vs pfx (if dle v u then Num 1 else Num 0) r2)
      else if c = CHR ''>'' then
        (case term_rule vs pfx r' of
           Inl e \<Rightarrow> Inl e
         | Inr (u, r2) \<Rightarrow> comparison_loop vs pfx (if dgt v u then Num 1 else Num 0) r2)
      else if c = CHR ''<'' then
        (case term_rule vs pfx r' of
           Inl e \<Rightarrow> Inl e
         | Inr (u, r2) \<Rightarrow> comparison_loop vs pfx (if dlt v u then Num 1 else Num 0) r2)
      else Inr (v, c # r'))"
proof -
  have "\<not> isspace c" using assms by (rule skipWs_ConsD)
  then have k: "skipWs (c # x) = c # x" for x by (rule skipWs_nonspace)
  have o: "skipWs (CHR ''>'' # x) = CHR ''>'' # x" "skipWs (CHR ''<'' # x) = CHR ''<'' # x"
    "skipWs (CHR ''='' # x) = CHR ''='' # x" "skipWs (CHR ''!'' # x) = CHR ''!'' # x"
    "skipWs (CHR ''&'' # x) = CHR ''&'' # x" "skipWs (CHR ''|'' # x) = CHR ''|'' # x" for x
    by (simp_all add: skipWs_def isspace_def)
  show ?thesis
    by (subst comparison_loop.simps)
      (cases r'; simp add: matchChar_cases matchStr_cases assms k o Let_def)
qed

lemma equality_loop_Nil:
  assumes "skipWs r = []"
  shows "equality_loop vs pfx v r = Inr (v, [])"
  by (subst equality_loop.simps) (simp add: matchStr_cases assms Let_def)

lemma equality_loop_Cons:
  assumes "skipWs r = c # r'"
  shows "equality_loop vs pfx v r =
     (if c = CHR ''='' \<and> take 1 r' = ''='' then
        (case comparison vs pfx (drop 1 r') of
           Inl e \<Rightarrow> Inl e
         | Inr (u, r2) \<Rightarrow> equality_loop vs pfx (if deq v u then Num 1 else Num 0) r2)
      else if c = CHR ''!'' \<and> take 1 r' = ''='' then
        (case comparison vs pfx (drop 1 r') of
           Inl e \<Rightarrow> Inl e
         | Inr (u, r2) \<Rightarrow> equality_loop vs pfx (if dne v u then Num 1 else Num 0) r2)
      else Inr (v, c # r'))"
proof -
  have "\<not> isspace c" using assms by (rule skipWs_ConsD)
  then have k: "skipWs (c # x) = c # x" for x by (rule skipWs_nonspace)
  have o: "skipWs (CHR ''>'' # x) = CHR ''>'' # x" "skipWs (CHR ''<'' # x) = CHR ''<'' # x"
    "skipWs (CHR ''='' # x) = CHR ''='' # x" "skipWs (CHR ''!'' # x) = CHR ''!'' # x"
    "skipWs (CHR ''&'' # x) = CHR ''&'' # x" "skipWs (CHR ''|'' # x) = CHR ''|'' # x" for x
    by (simp_all add: skipWs_def isspace_def)
  show ?thesis
    by (subst equality_loop.simps)
      (cases r'; simp add: matchStr_cases assms k o Let_def)
qed

lemma logical_and_loop_Nil:
  assumes "skipWs r = []"
  shows "logical_and_loop vs pfx v r = Inr (v, [])"
  by (subst logical_and_loop.simps) (simp add: matchStr_cases assms Let_def)

lemma logical_and_loop_Cons:
  assumes "skipWs r = c # r'"
  shows "logical_and_loop vs pfx v r =
     (if c = CHR ''&'' \<and> take 1 r' = ''&'' then
        (case equality vs pfx (drop 1 r') of
           Inl e \<Rightarrow> Inl e
         | Inr (u, r2) \<Rightarrow>
             logical_and_loop vs pfx
               (if bool_of_double (truthy v) \<and> bool_of_double (truthy u) then Num 1 else Num 0) r2)
      else Inr (v, c # r'))"
proof -
  have "\<not> isspace c" using assms by (rule skipWs_ConsD)
  then have k: "skipWs (c # x) = c # x" for x by (rule skipWs_nonspace)
  have o: "skipWs (CHR ''>'' # x) = CHR ''>'' # x" "skipWs (CHR ''<'' # x) = CHR ''<'' # x"
    "skipWs (CHR ''='' # x) = CHR ''='' # x" "skipWs (CHR ''!'' # x) = CHR ''!'' # x"
    "skipWs (CHR ''&'' # x) = CHR ''&'' # x" "skipWs (CHR ''|'' # x) = CHR ''|'' # x" for x
    by (simp_all add: skipWs_def isspace_def)
  show ?thesis
    by (subst logical_and_loop.simps)
      (cases r'; simp add: matchStr_cases assms k o Let_def)
qed

lemma logical_or_loop_Nil:
  assumes "skipWs r = []"
  shows "logical_or_loop vs pfx v r = Inr (v, [])"
  by (subst logical_or_loop.simps) (simp add: matchStr_cases assms Let_def)

lemma logical_or_loop_Cons:
  assumes "skipWs r = c # r'"
  shows "logical_or_loop vs pfx v r =
     (if c = CHR ''|'' \<and> take 1 r' = ''|'' then
        (case logical_and vs pfx (drop 1 r') of
           Inl e \<Rightarrow> Inl e
         | Inr (u, r2) \<Rightarrow>
             logical_or_loop vs pfx
               (if bool_of_double (truthy v) \<or> bool_of_double (truthy u) then Num 1 else Num 0) r2)
      else Inr (v, c # r'))"
proof -
  have "\<not> isspace c" using assms by (rule skipWs_ConsD)
  then have k: "skipWs (c # x) = c # x" for x by (rule skipWs_nonspace)
  have o: "skipWs (CHR ''>'' # x) = CHR ''>'' # x" "skipWs (CHR ''<'' # x) = CHR ''<'' # x"
    "skipWs (CHR ''='' # x) = CHR ''='' # x" "skipWs (CHR ''!'' # x) = CHR ''!'' # x"
    "skipWs (CHR ''&'' # x) = CHR ''&'' # x" "skipWs (CHR ''|'' # x) = CHR ''|'' # x" for x
    by (simp_all add: skipWs_def isspace_def)
  show ?thesis
    by (subst logical_or_loop.simps)
      (cases r'; simp add: matchStr_cases assms k o Let_def)
qed

section \<open>The grammar of expressions\<close>

text \<open>
  Expressions as trees, and the value of a tree: every operator is applied to the
  values of its operands, and the evaluation fails when a variable is unknown or a
  function call is rejected.
\<close>

datatype binop = OMul | ODiv | OMod | OAdd | OSub | OGe | OLe | OGt | OLt | OEq | ONe | OAnd | OOr

datatype ast =
    Lit double
  | Var string
  | Call string "ast list"
  | UPlus ast
  | UMinus ast
  | UNot ast
  | Bin binop ast ast

definition truth :: "bool \<Rightarrow> double" where
  "truth b = (if b then Num 1 else Num 0)"

fun apply_binop :: "binop \<Rightarrow> double \<Rightarrow> double \<Rightarrow> double" where
  "apply_binop OMul v u = dmul v u"
| "apply_binop ODiv v u = ddiv v u"
| "apply_binop OMod v u = dfmod v u"
| "apply_binop OAdd v u = dadd v u"
| "apply_binop OSub v u = dsub v u"
| "apply_binop OGe v u = truth (dge v u)"
| "apply_binop OLe v u = truth (dle v u)"
| "apply_binop OGt v u = truth (dgt v u)"
| "apply_binop OLt v u = truth (dlt v u)"
| "apply_binop OEq v u = truth (deq v u)"
| "apply_binop ONe v u = truth (dne v u)"
| "apply_binop OAnd v u = truth (dne v (Num 0) \<and> dne u (Num 0))"
| "apply_binop OOr v u = truth (dne v (Num 0) \<or> dne u (Num 0))"

text \<open>The built-in functions: the value of a call, or \<open>None\<close> when the name is unknown or
  the number of arguments is wrong.\<close>

definition builtin :: "string \<Rightarrow> double list \<Rightarrow> double option" where
  "builtin f args = (case callFunction [] [] f args of Inl e \<Rightarrow> None | Inr v \<Rightarrow> Some v)"

fun sem :: "variables \<Rightarrow> ast \<Rightarrow> double option"
  and sem_list :: "variables \<Rightarrow> ast list \<Rightarrow> double list option" where
  "sem vs (Lit v) = Some v"
| "sem vs (Var x) = vs x"
| "sem vs (Call f as) = (case sem_list vs as of None \<Rightarrow> None | Some args \<Rightarrow> builtin f args)"
| "sem vs (UPlus a) = sem vs a"
| "sem vs (UMinus a) = map_option dneg (sem vs a)"
| "sem vs (UNot a) = map_option (\<lambda>v. truth (\<not> dne v (Num 0))) (sem vs a)"
| "sem vs (Bin op a b) =
     (case sem vs a of
        None \<Rightarrow> None
      | Some v \<Rightarrow> (case sem vs b of None \<Rightarrow> None | Some u \<Rightarrow> Some (apply_binop op v u)))"
| "sem_list vs [] = Some []"
| "sem_list vs (a # as) =
     (case sem vs a of
        None \<Rightarrow> None
      | Some v \<Rightarrow> (case sem_list vs as of None \<Rightarrow> None | Some args \<Rightarrow> Some (v # args)))"

text \<open>The texts of the tokens.\<close>

definition mantissa_text :: "string \<Rightarrow> bool" where
  "mantissa_text m =
     (case m of
        [] \<Rightarrow> False
      | c # r \<Rightarrow>
          if c = CHR ''.'' then r \<noteq> [] \<and> list_all isdigit r
          else (let ip = takeWhile isdigit m; fp = dropWhile isdigit m
                in ip \<noteq> [] \<and> (fp = [] \<or> hd fp = CHR ''.'' \<and> list_all isdigit (tl fp))))"

definition exponent_text :: "string \<Rightarrow> bool" where
  "exponent_text ex =
     (case ex of
        [] \<Rightarrow> True
      | e # r \<Rightarrow>
          (e = CHR ''e'' \<or> e = CHR ''E'') \<and>
          (let ds = (case r of [] \<Rightarrow> [] | c # r' \<Rightarrow> if c = CHR ''+'' \<or> c = CHR ''-'' then r' else r)
           in ds \<noteq> [] \<and> list_all isdigit ds))"

definition identifier_text :: "string \<Rightarrow> bool" where
  "identifier_text x =
     (case x of [] \<Rightarrow> False | c # r \<Rightarrow> (isalpha c \<or> c = CHR ''_'') \<and> list_all isword r)"

text \<open>The levels of the grammar, the binary operators of each level and the level of
  their operands.\<close>

datatype level = Primary | Unary | Factor | Term | Comparison | Equality | Conj | Disj

fun ops :: "level \<Rightarrow> (string \<times> binop) list" where
  "ops Factor = [(''*'', OMul), (''/'', ODiv), (''%'', OMod)]"
| "ops Term = [(''+'', OAdd), (''-'', OSub)]"
| "ops Comparison = [(''>='', OGe), (''<='', OLe), (''>'', OGt), (''<'', OLt)]"
| "ops Equality = [(''=='', OEq), (''!='', ONe)]"
| "ops Conj = [(''&&'', OAnd)]"
| "ops Disj = [(''||'', OOr)]"
| "ops _ = []"

fun operand :: "level \<Rightarrow> level" where
  "operand Factor = Unary"
| "operand Term = Factor"
| "operand Comparison = Term"
| "operand Equality = Comparison"
| "operand Conj = Equality"
| "operand Disj = Conj"
| "operand l = l"

text \<open>
  \<open>G l s a\<close>: the text \<open>s\<close> is a phrase of the level \<open>l\<close> of the grammar, and \<open>a\<close> is its
  tree. White space \<open>w\<close> may precede every token; a chain of operators of one level
  groups to the left. \<open>G_args t as\<close>: \<open>t\<close> is a non-empty list of arguments with the
  closing parenthesis of the call.
\<close>

inductive G :: "level \<Rightarrow> string \<Rightarrow> ast \<Rightarrow> bool"
  and G_args :: "string \<Rightarrow> ast list \<Rightarrow> bool" where
  G_lit: "spaces w \<Longrightarrow> mantissa_text m \<Longrightarrow> exponent_text ex \<Longrightarrow> stod (m @ ex) = Inr v
        \<Longrightarrow> G Primary (w @ m @ ex) (Lit v)"
| G_var: "spaces w \<Longrightarrow> identifier_text x \<Longrightarrow> G Primary (w @ x) (Var x)"
| G_paren: "spaces w \<Longrightarrow> G Disj s a \<Longrightarrow> spaces w' \<Longrightarrow> G Primary (w @ ''('' @ s @ w' @ '')'') a"
| G_call0: "spaces w \<Longrightarrow> identifier_text f \<Longrightarrow> spaces w1 \<Longrightarrow> spaces w2
        \<Longrightarrow> G Primary (w @ f @ w1 @ ''('' @ w2 @ '')'') (Call f [])"
| G_call: "spaces w \<Longrightarrow> identifier_text f \<Longrightarrow> spaces w1 \<Longrightarrow> G_args t as
        \<Longrightarrow> G Primary (w @ f @ w1 @ ''('' @ t) (Call f as)"
| G_last_arg: "G Disj s a \<Longrightarrow> spaces w \<Longrightarrow> G_args (s @ w @ '')'') [a]"
| G_next_arg: "G Disj s a \<Longrightarrow> spaces w \<Longrightarrow> G_args t as \<Longrightarrow> G_args (s @ w @ '','' @ t) (a # as)"
| G_primary: "G Primary s a \<Longrightarrow> G Unary s a"
| G_plus: "spaces w \<Longrightarrow> G Unary s a \<Longrightarrow> G Unary (w @ ''+'' @ s) (UPlus a)"
| G_minus: "spaces w \<Longrightarrow> G Unary s a \<Longrightarrow> G Unary (w @ ''-'' @ s) (UMinus a)"
| G_negation: "spaces w \<Longrightarrow> G Unary s a \<Longrightarrow> G Unary (w @ ''!'' @ s) (UNot a)"
| G_operand: "ops l \<noteq> [] \<Longrightarrow> G (operand l) s a \<Longrightarrow> G l s a"
| G_binary: "(tok, op) \<in> set (ops l) \<Longrightarrow> G l s a \<Longrightarrow> spaces w \<Longrightarrow> G (operand l) s' b
        \<Longrightarrow> G l (s @ w @ tok @ s') (Bin op a b)"

section \<open>The parser on the phrases of the grammar\<close>

text \<open>Character classes.\<close>

definition token_end :: "string \<Rightarrow> bool" where
  "token_end r = (case r of [] \<Rightarrow> True | c # _ \<Rightarrow> \<not> isword c \<and> c \<noteq> CHR ''.'')"

definition pstart :: "char \<Rightarrow> bool" where
  "pstart c = (isalpha c \<or> c = CHR ''_'' \<or> isdigit c \<or> c = CHR ''.'' \<or> c = CHR ''('')"

lemma isdigit_other:
  "isdigit c \<Longrightarrow> \<not> isalpha c \<and> c \<noteq> CHR ''_'' \<and> c \<noteq> CHR ''.'' \<and> c \<noteq> CHR ''('' \<and> \<not> isspace c"
  by (auto simp: isdigit_def isalpha_def isspace_def Let_def)

lemma isalpha_other:
  "isalpha c \<or> c = CHR ''_'' \<Longrightarrow> \<not> isdigit c \<and> c \<noteq> CHR ''.'' \<and> c \<noteq> CHR ''('' \<and> \<not> isspace c"
  by (auto simp: isdigit_def isalpha_def isspace_def Let_def)

lemma pstart_other:
  "pstart c \<Longrightarrow> \<not> isspace c \<and> c \<noteq> CHR ''+'' \<and> c \<noteq> CHR ''-'' \<and> c \<noteq> CHR ''!''
     \<and> c \<noteq> CHR '')'' \<and> c \<noteq> CHR ''='' \<and> c \<noteq> CHR '',''"
  by (auto simp: pstart_def isdigit_def isalpha_def isspace_def Let_def)

text \<open>Scanning a number.\<close>

lemma token_end_digit: "token_end r \<Longrightarrow> r = [] \<or> \<not> isdigit (hd r)"
  by (cases r) (auto simp: token_end_def isword_def isalnum_def)

lemma scan_exponent_text:
  assumes "exponent_text ex" and "token_end rest"
  shows "scan_exponent_part (ex @ rest) = (ex, rest)"
proof (cases ex)
  case Nil
  have "scan_exponent rest = None"
    using assms(2)
    by (cases rest) (auto simp: scan_exponent_def token_end_def isword_def isalnum_def isalpha_def)
  with Nil show ?thesis by (simp add: scan_exponent_part_def)
next
  case (Cons e r)
  define ds where "ds = (case r of [] \<Rightarrow> [] | c # r' \<Rightarrow> if c = CHR ''+'' \<or> c = CHR ''-'' then r' else r)"
  have e: "e = CHR ''e'' \<or> e = CHR ''E''" and ds: "ds \<noteq> []" "list_all isdigit ds"
    using assms(1) Cons by (simp_all add: exponent_text_def ds_def Let_def)
  note d = scan_digits [OF ds(2) token_end_digit [OF assms(2)]]
  show ?thesis
  proof (cases "r \<noteq> [] \<and> (hd r = CHR ''+'' \<or> hd r = CHR ''-'')")
    case True
    then obtain c where r: "r = c # ds" and c: "c = CHR ''+'' \<or> c = CHR ''-''"
      by (cases r) (auto simp: ds_def)
    show ?thesis
      using e c ds(1) by (auto simp: Cons r scan_exponent_part_def scan_exponent_def d)
  next
    case False
    then have r: "r = ds" by (cases r) (auto simp: ds_def)
    obtain c ds' where dc: "ds = c # ds'" using ds(1) by (cases ds) auto
    have "c \<noteq> CHR ''+''" "c \<noteq> CHR ''-''" using False r dc by auto
    then show ?thesis
      using e ds(1) d by (auto simp: Cons r dc scan_exponent_part_def scan_exponent_def)
  qed
qed

lemma scan_fraction_text:
  assumes "fp = [] \<or> hd fp = CHR ''.'' \<and> list_all isdigit (tl fp)"
    and "nxt = [] \<or> \<not> isdigit (hd nxt) \<and> hd nxt \<noteq> CHR ''.''"
  shows "scan_fraction (fp @ nxt) = (fp, nxt)"
proof (cases fp)
  case Nil
  then show ?thesis using assms(2) by (cases nxt) (auto simp: scan_fraction_def)
next
  case (Cons c ds)
  with assms(1) have c: "c = CHR ''.''" and ds: "list_all isdigit ds" by simp_all
  have "nxt = [] \<or> \<not> isdigit (hd nxt)" using assms(2) by auto
  note d = scan_digits [OF ds this]
  show ?thesis by (simp add: Cons c scan_fraction_def d)
qed

lemma exponent_text_start:
  assumes "exponent_text ex" and "token_end rest"
  shows "ex @ rest = [] \<or> \<not> isdigit (hd (ex @ rest)) \<and> hd (ex @ rest) \<noteq> CHR ''.''"
proof (cases ex)
  case Nil
  then show ?thesis using assms(2)
    by (cases rest) (auto simp: token_end_def isword_def isalnum_def)
next
  case (Cons e r)
  with assms(1) have "e = CHR ''e'' \<or> e = CHR ''E''" by (simp add: exponent_text_def)
  then show ?thesis using Cons by (auto simp: isdigit_def)
qed

lemma scan_number_text:
  assumes "mantissa_text m" and "exponent_text ex" and "token_end rest"
  shows "scan_number (m @ ex @ rest) = (m @ ex, rest, True)"
proof -
  obtain c r where m: "m = c # r" using assms(1) by (cases m) (auto simp: mantissa_text_def)
  note x = scan_exponent_text [OF assms(2,3)]
  note n = exponent_text_start [OF assms(2,3)]
  show ?thesis
  proof (cases "c = CHR ''.''")
    case True
    with assms(1) m have r: "r \<noteq> []" "list_all isdigit r" by (simp_all add: mantissa_text_def)
    have "ex @ rest = [] \<or> \<not> isdigit (hd (ex @ rest))" using n by auto
    note d = scan_digits [OF r(2) this]
    have f: "scan_fraction (ex @ rest) = ([], ex @ rest)"
      using scan_fraction_text [of "[]" "ex @ rest"] n by simp
    show ?thesis using r(1) by (simp add: m True scan_number_def d f x)
  next
    case False
    define ip where "ip = takeWhile isdigit r"
    define fp where "fp = dropWhile isdigit r"
    have rr: "r = ip @ fp" by (simp add: ip_def fp_def)
    have c: "isdigit c"
      using assms(1) m False by (cases "isdigit c") (simp_all add: mantissa_text_def)
    have fp: "fp = [] \<or> hd fp = CHR ''.'' \<and> list_all isdigit (tl fp)"
      using assms(1) m False c by (simp add: mantissa_text_def fp_def Let_def)
    have ipd: "list_all isdigit ip" by (simp add: ip_def list_all_iff) (meson set_takeWhileD)
    have "fp @ ex @ rest = [] \<or> \<not> isdigit (hd (fp @ ex @ rest))"
      using fp n by (cases fp) (auto simp: isdigit_def)
    note d = scan_digits [OF ipd this]
    note f = scan_fraction_text [OF fp n]
    have "scan_number (c # ip @ fp @ ex @ rest) = (c # ip @ fp @ ex, rest, True)"
      using c False by (simp add: scan_number_def Let_def d f x)
    then show ?thesis by (simp add: m rr)
  qed
qed

lemma parseNumber_text:
  assumes "mantissa_text m" and "exponent_text ex" and "token_end rest" and "stod (m @ ex) = Inr v"
  shows "parseNumber pfx (m @ ex @ rest) = Inr (v, rest)"
proof -
  obtain c r where m: "m = c # r" and c: "isdigit c \<or> c = CHR ''.''"
    using assms(1) by (cases m) (auto simp: mantissa_text_def Let_def split: if_splits)
  have "\<not> isspace c" using c by (auto simp: isdigit_def isspace_def Let_def)
  then have k: "skipWs (m @ ex @ rest) = m @ ex @ rest" by (simp add: m skipWs_def)
  have ne: "m \<noteq> []" by (simp add: m)
  show ?thesis
    unfolding parseNumber_def k scan_number_text [OF assms(1-3)]
    using assms(4) ne by simp
qed


text \<open>Reading an identifier.\<close>

lemma parseIdentifier_text:
  assumes "identifier_text x" and "token_end rest"
  shows "\<exists>c r'. x @ rest = c # r' \<and> (isalpha c \<or> c = CHR ''_'')
           \<and> c # takeWhile isword r' = x \<and> dropWhile isword r' = rest"
proof -
  obtain c r where x: "x = c # r" and c: "isalpha c \<or> c = CHR ''_''" and r: "list_all isword r"
    using assms(1) by (cases x) (auto simp: identifier_text_def)
  have a: "\<forall>k\<in>set r. isword k" using r by (simp add: list_all_iff)
  have e: "takeWhile isword rest = []" "dropWhile isword rest = rest"
    using assms(2) by (cases rest; simp add: token_end_def)+
  have "takeWhile isword (r @ rest) = r"
    using takeWhile_append2 [of r isword rest] a e by simp
  moreover have "dropWhile isword (r @ rest) = rest"
    using dropWhile_append2 [of r isword rest] a e by simp
  ultimately show ?thesis using x c by simp
qed

text \<open>
  The characters that may follow a phrase of each level: the first character after
  the phrase and white space is one of them, or there is none.
\<close>

fun follow_chars :: "level \<Rightarrow> string" where
  "follow_chars Primary = ''*/%+-<>=!&|),''"
| "follow_chars Unary = ''*/%+-<>=!&|),''"
| "follow_chars Factor = ''+-<>=!&|),''"
| "follow_chars Term = ''<>=!&|),''"
| "follow_chars Comparison = ''=!&|),''"
| "follow_chars Equality = ''&|),''"
| "follow_chars Conj = ''|),''"
| "follow_chars Disj = ''),''"

definition follow :: "level \<Rightarrow> string \<Rightarrow> bool" where
  "follow l rest = (case skipWs rest of [] \<Rightarrow> True | c # _ \<Rightarrow> c \<in> set (follow_chars l))"

lemma follow_Nil [simp]: "follow l []"
  by (simp add: follow_def)

lemma follow_spaces: "spaces w \<Longrightarrow> follow l (w @ r) = follow l r"
  by (simp add: follow_def skipWs_spaces)

lemma follow_skipWs [simp]: "follow l (skipWs r) = follow l r"
  by (simp add: follow_def)

lemma follow_Primary: "follow l rest \<Longrightarrow> follow Primary rest"
  by (cases l) (auto simp: follow_def split: list.splits)

lemma follow_operand: "follow l rest \<Longrightarrow> follow (operand l) rest"
  by (cases l) (auto simp: follow_def split: list.splits)

lemma follow_token_end: "follow l rest \<Longrightarrow> token_end rest"
proof (cases rest)
  case Nil
  then show ?thesis by (simp add: token_end_def)
next
  case (Cons c r)
  assume f: "follow l rest"
  show ?thesis
  proof (cases "isspace c")
    case True
    then show ?thesis
      by (auto simp: Cons token_end_def isspace_def isword_def isalnum_def isalpha_def isdigit_def Let_def)
  next
    case False
    then have "skipWs rest = c # r" by (simp add: Cons skipWs_def)
    with follow_Primary [OF f] have "c \<in> set ''*/%+-<>=!&|),''" by (simp add: follow_def)
    then show ?thesis
      by (auto simp: Cons token_end_def isword_def isalnum_def isalpha_def isdigit_def)
  qed
qed

lemma follow_not_paren:
  "follow l rest \<Longrightarrow> skipWs rest = c # r \<Longrightarrow> c \<noteq> CHR ''(''"
  using follow_Primary [of l rest] by (auto simp: follow_def)

text \<open>The parser of each level, and the loop of each level with binary operators.\<close>

fun parse_at :: "level \<Rightarrow> variables \<Rightarrow> string \<Rightarrow> string \<Rightarrow> (double \<times> string) result" where
  "parse_at Primary = primary"
| "parse_at Unary = unary"
| "parse_at Factor = factor"
| "parse_at Term = term_rule"
| "parse_at Comparison = comparison"
| "parse_at Equality = equality"
| "parse_at Conj = logical_and"
| "parse_at Disj = logical_or"

fun loop_at :: "level \<Rightarrow> variables \<Rightarrow> string \<Rightarrow> double \<Rightarrow> string \<Rightarrow> (double \<times> string) result" where
  "loop_at Factor = factor_loop"
| "loop_at Term = term_loop"
| "loop_at Comparison = comparison_loop"
| "loop_at Equality = equality_loop"
| "loop_at Conj = logical_and_loop"
| "loop_at Disj = logical_or_loop"
| "loop_at l = (\<lambda>vs pfx v r. Inr (v, r))"

lemma parse_loop:
  "ops l \<noteq> [] \<Longrightarrow>
   parse_at l vs pfx r =
     (case parse_at (operand l) vs pfx r of Inl e \<Rightarrow> Inl e | Inr (v, r1) \<Rightarrow> loop_at l vs pfx v r1)"
  by (cases l; hypsubst;
      ((simp; fail) |
       (simp only: parse_at.simps operand.simps loop_at.simps,
        (rule factor.simps | rule term_rule.simps | rule comparison.simps | rule equality.simps
         | rule logical_and.simps | rule logical_or.simps))))

lemmas loop_Nil = factor_loop_Nil term_loop_Nil comparison_loop_Nil equality_loop_Nil
  logical_and_loop_Nil logical_or_loop_Nil

lemmas loop_Cons = factor_loop_Cons term_loop_Cons comparison_loop_Cons equality_loop_Cons
  logical_and_loop_Cons logical_or_loop_Cons

lemma loop_skipWs:
  "ops l \<noteq> [] \<Longrightarrow> loop_at l vs pfx v (skipWs r) = loop_at l vs pfx v r"
proof (cases "skipWs r")
  case Nil
  then have k: "skipWs (skipWs r) = []" by simp
  assume "ops l \<noteq> []"
  then show ?thesis
    by (cases l; hypsubst;
        ((simp; fail) | simp only: loop_at.simps loop_Nil [OF Nil] loop_Nil [OF k]))
next
  case (Cons c r')
  have k: "skipWs (skipWs r) = c # r'" using skipWs_idem Cons by (rule trans)
  assume "ops l \<noteq> []"
  then show ?thesis
    by (cases l; hypsubst;
        ((simp; fail) | simp only: loop_at.simps loop_Cons [OF Cons] loop_Cons [OF k]))
qed

lemma loop_exit:
  assumes "ops l \<noteq> []" and "follow l rest"
  shows "loop_at l vs pfx v rest = Inr (v, skipWs rest)"
proof (cases "skipWs rest")
  case Nil
  from assms(1) show ?thesis
    by (cases l; hypsubst;
        ((simp; fail) | simp only: loop_at.simps loop_Nil [OF Nil] Nil))
next
  case (Cons c r')
  with assms(2) have c: "c \<in> set (follow_chars l)" by (simp add: follow_def)
  from assms(1) c show ?thesis
    by (cases l; hypsubst;
        ((simp; fail) | (simp only: loop_at.simps loop_Cons [OF Cons] Cons, auto)))
qed

text \<open>One step of a loop, on each operator.\<close>

lemma skipWs_op:
  "skipWs (CHR ''*'' # x) = CHR ''*'' # x" "skipWs (CHR ''/'' # x) = CHR ''/'' # x"
  "skipWs (CHR ''%'' # x) = CHR ''%'' # x" "skipWs (CHR ''+'' # x) = CHR ''+'' # x"
  "skipWs (CHR ''-'' # x) = CHR ''-'' # x" "skipWs (CHR ''>'' # x) = CHR ''>'' # x"
  "skipWs (CHR ''<'' # x) = CHR ''<'' # x" "skipWs (CHR ''='' # x) = CHR ''='' # x"
  "skipWs (CHR ''!'' # x) = CHR ''!'' # x" "skipWs (CHR ''&'' # x) = CHR ''&'' # x"
  "skipWs (CHR ''|'' # x) = CHR ''|'' # x" "skipWs (CHR ''('' # x) = CHR ''('' # x"
  "skipWs (CHR '')'' # x) = CHR '')'' # x" "skipWs (CHR '','' # x) = CHR '','' # x"
  by (simp_all add: skipWs_def isspace_def)

lemma truthy_nonzero: "bool_of_double (truthy v) = dne v (Num 0)"
  by (simp add: bool_of_double_def truthy_def dne_def deq_def)

lemma loop_step:
  assumes "(tok, op) \<in> set (ops l)" and "take 1 s' \<noteq> ''=''"
  shows "loop_at l vs pfx v (tok @ s') =
     (case parse_at (operand l) vs pfx s' of
        Inl e \<Rightarrow> Inl e
      | Inr (u, r2) \<Rightarrow> loop_at l vs pfx (apply_binop op v u) r2)"
proof (cases l)
  case Factor
  with assms(1) show ?thesis
    by (auto simp: factor_loop_Cons [OF skipWs_op(1)] factor_loop_Cons [OF skipWs_op(2)]
        factor_loop_Cons [OF skipWs_op(3)] split: sum.splits)
next
  case Term
  with assms(1) show ?thesis
    by (auto simp: term_loop_Cons [OF skipWs_op(4)] term_loop_Cons [OF skipWs_op(5)] split: sum.splits)
next
  case Comparison
  with assms show ?thesis
    by (auto simp: comparison_loop_Cons [OF skipWs_op(6)] comparison_loop_Cons [OF skipWs_op(7)]
        truth_def split: sum.splits)
next
  case Equality
  with assms(1) show ?thesis
    by (auto simp: equality_loop_Cons [OF skipWs_op(8)] equality_loop_Cons [OF skipWs_op(9)]
        truth_def split: sum.splits)
next
  case Conj
  with assms(1) show ?thesis
    by (auto simp: logical_and_loop_Cons [OF skipWs_op(10)] truth_def truthy_nonzero split: sum.splits)
next
  case Disj
  with assms(1) show ?thesis
    by (auto simp: logical_or_loop_Cons [OF skipWs_op(11)] truth_def truthy_nonzero split: sum.splits)
qed (use assms(1) in simp_all)

lemma skipWs_tok:
  assumes "(tok, op) \<in> set (ops l)" and "spaces w"
  shows "skipWs (w @ tok @ r) = tok @ r" and "follow (operand l) (w @ tok @ r)"
proof -
  show k: "skipWs (w @ tok @ r) = tok @ r"
    using assms(1) unfolding skipWs_spaces [OF assms(2)]
    by (cases l) (auto simp: skipWs_op)
  show "follow (operand l) (w @ tok @ r)"
    unfolding follow_def k using assms(1) by (cases l) auto
qed

text \<open>The first character of a phrase.\<close>

definition starts :: "level \<Rightarrow> string \<Rightarrow> bool" where
  "starts l s =
     (case skipWs s of
        [] \<Rightarrow> False
      | c # _ \<Rightarrow> pstart c \<or> l \<noteq> Primary \<and> (c = CHR ''+'' \<or> c = CHR ''-'' \<or> c = CHR ''!''))"

lemma starts_append: "starts l s \<Longrightarrow> starts l (s @ r)"
  by (cases "skipWs s") (simp_all add: starts_def skipWs_append)

lemma starts_spaces: "spaces w \<Longrightarrow> starts l (w @ s) = starts l s"
  by (simp add: starts_def skipWs_spaces)

lemma starts_Cons: "pstart c \<Longrightarrow> starts l (c # r)"
  using pstart_other [of c] by (simp add: starts_def skipWs_nonspace)

lemma starts_level: "starts l' s \<Longrightarrow> l \<noteq> Primary \<Longrightarrow> starts l s"
  by (auto simp: starts_def split: list.splits)

lemma mantissa_text_start: "mantissa_text m \<Longrightarrow> \<exists>c r. m = c # r \<and> (isdigit c \<or> c = CHR ''.'')"
  by (cases m) (auto simp: mantissa_text_def Let_def split: if_splits)

lemma identifier_text_start:
  "identifier_text x \<Longrightarrow> \<exists>c r. x = c # r \<and> (isalpha c \<or> c = CHR ''_'')"
  by (cases x) (auto simp: identifier_text_def)

lemma G_starts: "G l s a \<Longrightarrow> starts l s"
  and G_args_starts: "G_args t as \<Longrightarrow> starts Disj t"
proof (induct rule: G_G_args.inducts)
  case (G_lit w m ex v)
  from mantissa_text_start [OF G_lit(2)] obtain c r where "m = c # r" "pstart c"
    by (auto simp: pstart_def)
  then show ?case by (simp add: starts_spaces [OF G_lit(1)] starts_Cons)
next
  case (G_var w x)
  from identifier_text_start [OF G_var(2)] obtain c r where "x = c # r" "pstart c"
    by (auto simp: pstart_def)
  then show ?case by (simp add: starts_spaces [OF G_var(1)] starts_Cons)
next
  case (G_paren w s a w')
  have "pstart (CHR ''('')" by (simp add: pstart_def)
  then show ?case by (simp add: starts_spaces [OF G_paren(1)] starts_Cons)
next
  case (G_call0 w f w1 w2)
  from identifier_text_start [OF G_call0(2)] obtain c r where "f = c # r" "pstart c"
    by (auto simp: pstart_def)
  then show ?case by (simp add: starts_spaces [OF G_call0(1)] starts_Cons)
next
  case (G_call w f w1 t as)
  from identifier_text_start [OF G_call(2)] obtain c r where "f = c # r" "pstart c"
    by (auto simp: pstart_def)
  then show ?case by (simp add: starts_spaces [OF G_call(1)] starts_Cons)
next
  case (G_last_arg s a w)
  then show ?case by (simp add: starts_append)
next
  case (G_next_arg s a w t as)
  then show ?case by (simp add: starts_append)
next
  case (G_primary s a)
  then show ?case by (simp add: starts_level)
next
  case (G_plus w s a)
  then show ?case by (simp add: starts_def skipWs_spaces skipWs_op)
next
  case (G_minus w s a)
  then show ?case by (simp add: starts_def skipWs_spaces skipWs_op)
next
  case (G_negation w s a)
  then show ?case by (simp add: starts_def skipWs_spaces skipWs_op)
next
  case (G_operand l s a)
  then have "l \<noteq> Primary" by auto
  with G_operand(3) show ?case by (rule starts_level)
next
  case (G_binary tok op l s a w s' b)
  then show ?case by (simp add: starts_append)
qed

lemma starts_not_eq: "starts l s \<Longrightarrow> take 1 (s @ r) \<noteq> ''=''"
proof -
  assume a: "starts l s"
  then obtain c k where k: "skipWs s = c # k" and c: "c \<noteq> CHR ''=''"
    using pstart_other by (cases "skipWs s") (auto simp: starts_def)
  then obtain d s' where s: "s = d # s'" by (cases s) auto
  show ?thesis
  proof (cases "isspace d")
    case True
    then have "d \<noteq> CHR ''=''" by (auto simp: isspace_def)
    then show ?thesis by (simp add: s)
  next
    case False
    then have "skipWs s = s" by (simp add: s skipWs_def)
    with k s c show ?thesis by simp
  qed
qed

text \<open>Leading white space is skipped by every rule.\<close>

lemma primary_Nil:
  assumes "skipWs r = []"
  shows "primary vs pfx r = fail pfx [] ''Expected primary expression''"
  by (subst primary.simps)
    (simp add: matchChar_cases peek_cases assms Let_def isalpha_def isdigit_def)

lemma unary_Nil:
  assumes "skipWs r = []"
  shows "unary vs pfx r = primary vs pfx []"
  by (subst unary.simps) (simp add: matchChar_cases assms Let_def)

lemma primary_skipWs: "primary vs pfx (skipWs r) = primary vs pfx r"
proof (cases "skipWs r")
  case Nil
  then have k: "skipWs (skipWs r) = []" by simp
  show ?thesis by (simp only: primary_Nil [OF Nil] primary_Nil [OF k])
next
  case (Cons c r')
  have k: "skipWs (skipWs r) = c # r'" using skipWs_idem Cons by (rule trans)
  show ?thesis by (simp only: primary_Cons [OF Cons] primary_Cons [OF k])
qed

lemma unary_skipWs: "unary vs pfx (skipWs r) = unary vs pfx r"
proof (cases "skipWs r")
  case Nil
  then have k: "skipWs (skipWs r) = []" by simp
  show ?thesis by (simp only: unary_Nil [OF Nil] unary_Nil [OF k])
next
  case (Cons c r')
  have k: "skipWs (skipWs r) = c # r'" using skipWs_idem Cons by (rule trans)
  show ?thesis by (simp only: unary_Cons [OF Cons] unary_Cons [OF k])
qed

lemma parse_skipWs_step:
  assumes "ops l \<noteq> []"
    and "parse_at (operand l) vs pfx (skipWs r) = parse_at (operand l) vs pfx r"
  shows "parse_at l vs pfx (skipWs r) = parse_at l vs pfx r"
proof -
  have "parse_at l vs pfx (skipWs r) =
      (case parse_at (operand l) vs pfx (skipWs r) of
         Inl e \<Rightarrow> Inl e | Inr (v, r1) \<Rightarrow> loop_at l vs pfx v r1)"
    using assms(1) by (rule parse_loop)
  also have "\<dots> =
      (case parse_at (operand l) vs pfx r of
         Inl e \<Rightarrow> Inl e | Inr (v, r1) \<Rightarrow> loop_at l vs pfx v r1)"
    by (simp only: assms(2))
  also have "\<dots> = parse_at l vs pfx r"
    using assms(1) by (rule parse_loop [symmetric])
  finally show ?thesis .
qed

lemma parse_skipWs: "parse_at l vs pfx (skipWs r) = parse_at l vs pfx r"
proof -
  have p: "parse_at Primary vs pfx (skipWs r) = parse_at Primary vs pfx r"
    by (simp add: primary_skipWs)
  have u: "parse_at Unary vs pfx (skipWs r) = parse_at Unary vs pfx r"
    by (simp add: unary_skipWs)
  have f: "parse_at Factor vs pfx (skipWs r) = parse_at Factor vs pfx r"
    by (rule parse_skipWs_step) (simp, simp only: operand.simps u)
  have t: "parse_at Term vs pfx (skipWs r) = parse_at Term vs pfx r"
    by (rule parse_skipWs_step) (simp, simp only: operand.simps f)
  have c: "parse_at Comparison vs pfx (skipWs r) = parse_at Comparison vs pfx r"
    by (rule parse_skipWs_step) (simp, simp only: operand.simps t)
  have e: "parse_at Equality vs pfx (skipWs r) = parse_at Equality vs pfx r"
    by (rule parse_skipWs_step) (simp, simp only: operand.simps c)
  have a: "parse_at Conj vs pfx (skipWs r) = parse_at Conj vs pfx r"
    by (rule parse_skipWs_step) (simp, simp only: operand.simps e)
  have d: "parse_at Disj vs pfx (skipWs r) = parse_at Disj vs pfx r"
    by (rule parse_skipWs_step) (simp, simp only: operand.simps a)
  show ?thesis
    by (cases l; hypsubst) (rule p u f t c e a d)+
qed

lemma parse_spaces: "spaces w \<Longrightarrow> parse_at l vs pfx (w @ r) = parse_at l vs pfx r"
  using parse_skipWs [of l vs pfx "w @ r"] parse_skipWs [of l vs pfx r]
  by (simp add: skipWs_spaces)

lemma expr_Disj: "expr vs pfx r = parse_at Disj vs pfx r"
  by (simp add: expr.simps)

lemma call_args_skipWs: "call_args vs pfx acc (skipWs r) = call_args vs pfx acc r"
  using parse_skipWs [of Disj vs pfx r]
  by (simp only: call_args_cases [of vs pfx acc r] call_args_cases [of vs pfx acc "skipWs r"] expr_Disj)

text \<open>The built-in functions.\<close>

lemma callFunction_builtin:
  "callFunction pfx r f args =
     (case builtin f args of Some v \<Rightarrow> Inr v | None \<Rightarrow> callFunction pfx r f args)"
  "builtin f args = None \<Longrightarrow> isl (callFunction pfx r f args)"
  by (auto simp: builtin_def callFunction_def fail_def split: sum.splits if_splits option.splits)

text \<open>
  What the parser of a level does on a phrase of that level followed by \<open>rest\<close>: it
  fails when the value of the tree is undefined, and otherwise returns this value and
  leaves \<open>rest\<close> unread, up to white space. For a level with binary operators, the
  parser on a phrase that is followed by any text that may follow an operand goes on
  with the loop of the level.
\<close>

definition ok :: "(double \<times> string) result \<Rightarrow> double option \<Rightarrow> string \<Rightarrow> bool" where
  "ok res val rest =
     (case val of
        None \<Rightarrow> isl res
      | Some v \<Rightarrow> (\<exists>r'. res = Inr (v, r') \<and> skipWs r' = skipWs rest))"

definition sound :: "variables \<Rightarrow> string \<Rightarrow> level \<Rightarrow> string \<Rightarrow> ast \<Rightarrow> bool" where
  "sound vs pfx l s a =
     (\<forall>rest. follow l rest \<longrightarrow> ok (parse_at l vs pfx (s @ rest)) (sem vs a) rest)"

definition chain :: "variables \<Rightarrow> string \<Rightarrow> level \<Rightarrow> string \<Rightarrow> ast \<Rightarrow> bool" where
  "chain vs pfx l s a =
     (\<forall>rest. follow (operand l) rest \<longrightarrow>
        (case sem vs a of
           None \<Rightarrow> isl (parse_at l vs pfx (s @ rest))
         | Some v \<Rightarrow> parse_at l vs pfx (s @ rest) = loop_at l vs pfx v rest))"

definition args_sound :: "variables \<Rightarrow> string \<Rightarrow> string \<Rightarrow> ast list \<Rightarrow> bool" where
  "args_sound vs pfx t as =
     (\<forall>acc rest.
        (case sem_list vs as of
           None \<Rightarrow> isl (call_args vs pfx acc (t @ rest))
         | Some vals \<Rightarrow> call_args vs pfx acc (t @ rest) = Inr (acc @ vals, rest)))"

lemma okE_None: "ok res None rest \<Longrightarrow> isl res"
  by (simp add: ok_def)

lemma okE_Some:
  assumes "ok res (Some v) rest"
  obtains r' where "res = Inr (v, r')" and "skipWs r' = skipWs rest"
  using assms by (auto simp: ok_def)

lemma soundD: "sound vs pfx l s a \<Longrightarrow> follow l rest \<Longrightarrow> ok (parse_at l vs pfx (s @ rest)) (sem vs a) rest"
  by (simp add: sound_def)

lemma chain_sound:
  assumes "ops l \<noteq> []" and "chain vs pfx l s a"
  shows "sound vs pfx l s a"
  unfolding sound_def
proof (intro allI impI)
  fix rest
  assume f: "follow l rest"
  then have "follow (operand l) rest" by (rule follow_operand)
  with assms(2) have c: "case sem vs a of
           None \<Rightarrow> isl (parse_at l vs pfx (s @ rest))
         | Some v \<Rightarrow> parse_at l vs pfx (s @ rest) = loop_at l vs pfx v rest"
    by (simp add: chain_def)
  show "ok (parse_at l vs pfx (s @ rest)) (sem vs a) rest"
  proof (cases "sem vs a")
    case None
    with c show ?thesis by (simp add: ok_def)
  next
    case (Some v)
    with c have "parse_at l vs pfx (s @ rest) = Inr (v, skipWs rest)"
      by (simp add: loop_exit [OF assms(1) f])
    with Some show ?thesis by (simp add: ok_def)
  qed
qed

text \<open>The rules of the grammar, one by one.\<close>

lemma sound_lit:
  assumes "spaces w" and "mantissa_text m" and "exponent_text ex" and "stod (m @ ex) = Inr v"
  shows "sound vs pfx Primary (w @ m @ ex) (Lit v)"
  unfolding sound_def
proof (intro allI impI)
  fix rest
  assume f: "follow Primary rest"
  from mantissa_text_start [OF assms(2)] obtain c r where m: "m = c # r"
    and c: "isdigit c \<or> c = CHR ''.''" by auto
  have ns: "\<not> isspace c" using c by (auto simp: isdigit_def isspace_def Let_def)
  have k: "skipWs ((w @ m @ ex) @ rest) = c # r @ ex @ rest"
    using ns by (simp add: skipWs_spaces [OF assms(1)] m skipWs_nonspace)
  have n: "parseNumber pfx (c # r @ ex @ rest) = Inr (v, rest)"
    using parseNumber_text [OF assms(2,3) follow_token_end [OF f] assms(4), of pfx]
    by (simp add: m)
  have o: "c \<noteq> CHR ''(''" "\<not> (isalpha c \<or> c = CHR ''_'')"
    using c by (auto simp: isdigit_def isalpha_def Let_def)
  have "primary vs pfx ((w @ m @ ex) @ rest) = Inr (v, rest)"
    unfolding primary_Cons [OF k] using o c by (simp add: n)
  then show "ok (parse_at Primary vs pfx ((w @ m @ ex) @ rest)) (sem vs (Lit v)) rest"
    by (simp add: ok_def)
qed

lemma sound_var:
  assumes "spaces w" and "identifier_text x"
  shows "sound vs pfx Primary (w @ x) (Var x)"
  unfolding sound_def
proof (intro allI impI)
  fix rest
  assume f: "follow Primary rest"
  from parseIdentifier_text [OF assms(2) follow_token_end [OF f]]
  obtain c r' where x: "x @ rest = c # r'" and c: "isalpha c \<or> c = CHR ''_''"
    and t: "c # takeWhile isword r' = x" and d: "dropWhile isword r' = rest" by auto
  have ns: "\<not> isspace c" "c \<noteq> CHR ''(''" using isalpha_other [OF c] by simp_all
  have k: "skipWs ((w @ x) @ rest) = c # r'"
    using ns by (simp add: skipWs_spaces [OF assms(1)] x skipWs_nonspace)
  show "ok (parse_at Primary vs pfx ((w @ x) @ rest)) (sem vs (Var x)) rest"
  proof (cases "skipWs rest")
    case Nil
    then show ?thesis
      unfolding parse_at.simps primary_Cons [OF k]
      using c ns by (simp add: t d ok_def fail_def split: option.splits)
  next
    case (Cons y ys)
    have "y \<noteq> CHR ''(''" using f Cons by (rule follow_not_paren)
    moreover have "skipWs (y # ys) = skipWs rest"
      using skipWs_idem [of rest] by (simp add: Cons)
    ultimately show ?thesis
      unfolding parse_at.simps primary_Cons [OF k]
      using c ns Cons by (simp add: t d ok_def fail_def split: option.splits)
  qed
qed

lemma sound_paren:
  assumes "spaces w" and "sound vs pfx Disj s a" and "spaces w'"
  shows "sound vs pfx Primary (w @ ''('' @ s @ w' @ '')'') a"
  unfolding sound_def
proof (intro allI impI)
  fix rest
  assume f: "follow Primary rest"
  have k: "skipWs ((w @ ''('' @ s @ w' @ '')'') @ rest) = CHR ''('' # s @ w' @ '')'' @ rest"
    by (simp add: skipWs_spaces [OF assms(1)] skipWs_op)
  have k2: "skipWs (w' @ '')'' @ rest) = CHR '')'' # rest"
    by (simp add: skipWs_spaces [OF assms(3)] skipWs_op)
  have "follow Disj (w' @ '')'' @ rest)" unfolding follow_def k2 by simp
  from soundD [OF assms(2) this]
  have o: "ok (parse_at Disj vs pfx (s @ w' @ '')'' @ rest)) (sem vs a) (w' @ '')'' @ rest)" .
  have p: "parse_at Primary vs pfx ((w @ ''('' @ s @ w' @ '')'') @ rest) =
      (case parse_at Disj vs pfx (s @ w' @ '')'' @ rest) of
         Inl e \<Rightarrow> Inl e
       | Inr (v, r2) \<Rightarrow>
           (case skipWs r2 of
              [] \<Rightarrow> fail pfx [] (''Expected '' @ [quote] @ '')'' @ [quote])
            | x # xs \<Rightarrow> if x = CHR '')'' then Inr (v, xs)
                        else fail pfx (x # xs) (''Expected '' @ [quote] @ '')'' @ [quote])))"
    unfolding parse_at.simps primary_Cons [OF k] by (simp add: expr.simps)
  show "ok (parse_at Primary vs pfx ((w @ ''('' @ s @ w' @ '')'') @ rest)) (sem vs a) rest"
  proof (cases "sem vs a")
    case None
    with o have "isl (parse_at Disj vs pfx (s @ w' @ '')'' @ rest))" by (simp add: ok_def)
    then show ?thesis unfolding p None by (auto simp: ok_def isl_def)
  next
    case (Some v)
    with o obtain r2 where r: "parse_at Disj vs pfx (s @ w' @ '')'' @ rest) = Inr (v, r2)"
      and s: "skipWs r2 = skipWs (w' @ '')'' @ rest)" by (auto simp: ok_def)
    show ?thesis unfolding p r Some by (simp add: s [unfolded k2] ok_def)
  qed
qed

lemma sound_primary:
  assumes "sound vs pfx Primary s a" and "starts Primary s"
  shows "sound vs pfx Unary s a"
  unfolding sound_def
proof (intro allI impI)
  fix rest
  assume f: "follow Unary rest"
  then have f': "follow Primary rest" by (rule follow_Primary)
  from assms(2) obtain c k where k: "skipWs s = c # k" and c: "pstart c"
    by (cases "skipWs s") (auto simp: starts_def)
  then have k': "skipWs (s @ rest) = c # k @ rest" by (simp add: skipWs_append)
  have "unary vs pfx (s @ rest) = primary vs pfx (c # k @ rest)"
    unfolding unary_Cons [OF k'] using pstart_other [OF c] by simp
  also have "\<dots> = primary vs pfx (s @ rest)"
    using primary_skipWs [of vs pfx "s @ rest"] by (simp add: k')
  finally show "ok (parse_at Unary vs pfx (s @ rest)) (sem vs a) rest"
    using soundD [OF assms(1) f'] by simp
qed

lemma sound_plus:
  assumes "spaces w" and "sound vs pfx Unary s a"
  shows "sound vs pfx Unary (w @ ''+'' @ s) (UPlus a)"
  unfolding sound_def
proof (intro allI impI)
  fix rest
  assume f: "follow Unary rest"
  have k: "skipWs ((w @ ''+'' @ s) @ rest) = CHR ''+'' # s @ rest"
    by (simp add: skipWs_spaces [OF assms(1)] skipWs_op)
  show "ok (parse_at Unary vs pfx ((w @ ''+'' @ s) @ rest)) (sem vs (UPlus a)) rest"
    unfolding parse_at.simps unary_Cons [OF k]
    using soundD [OF assms(2) f] by simp
qed

lemma sound_minus:
  assumes "spaces w" and "sound vs pfx Unary s a"
  shows "sound vs pfx Unary (w @ ''-'' @ s) (UMinus a)"
  unfolding sound_def
proof (intro allI impI)
  fix rest
  assume f: "follow Unary rest"
  have k: "skipWs ((w @ ''-'' @ s) @ rest) = CHR ''-'' # s @ rest"
    by (simp add: skipWs_spaces [OF assms(1)] skipWs_op)
  show "ok (parse_at Unary vs pfx ((w @ ''-'' @ s) @ rest)) (sem vs (UMinus a)) rest"
    unfolding parse_at.simps unary_Cons [OF k]
    using soundD [OF assms(2) f]
    by (cases "sem vs a") (auto simp: ok_def isl_def)
qed

lemma sound_negation:
  assumes "spaces w" and "sound vs pfx Unary s a"
  shows "sound vs pfx Unary (w @ ''!'' @ s) (UNot a)"
  unfolding sound_def
proof (intro allI impI)
  fix rest
  assume f: "follow Unary rest"
  have k: "skipWs ((w @ ''!'' @ s) @ rest) = CHR ''!'' # s @ rest"
    by (simp add: skipWs_spaces [OF assms(1)] skipWs_op)
  show "ok (parse_at Unary vs pfx ((w @ ''!'' @ s) @ rest)) (sem vs (UNot a)) rest"
    unfolding parse_at.simps unary_Cons [OF k]
    using soundD [OF assms(2) f]
    by (cases "sem vs a") (auto simp: ok_def isl_def truth_def truthy_nonzero)
qed

lemma chain_operand:
  assumes "ops l \<noteq> []" and "sound vs pfx (operand l) s a"
  shows "chain vs pfx l s a"
  unfolding chain_def
proof (intro allI impI)
  fix rest
  assume f: "follow (operand l) rest"
  note o = soundD [OF assms(2) f]
  show "case sem vs a of
          None \<Rightarrow> isl (parse_at l vs pfx (s @ rest))
        | Some v \<Rightarrow> parse_at l vs pfx (s @ rest) = loop_at l vs pfx v rest"
  proof (cases "sem vs a")
    case None
    with o have "isl (parse_at (operand l) vs pfx (s @ rest))" by (simp add: ok_def)
    then show ?thesis
      unfolding parse_loop [OF assms(1), of vs pfx "s @ rest"] None by (auto simp: isl_def)
  next
    case (Some v)
    with o obtain r' where r: "parse_at (operand l) vs pfx (s @ rest) = Inr (v, r')"
      and s: "skipWs r' = skipWs rest" by (auto simp: ok_def)
    have "loop_at l vs pfx v r' = loop_at l vs pfx v rest"
      using loop_skipWs [OF assms(1), of vs pfx v r'] loop_skipWs [OF assms(1), of vs pfx v rest]
      by (simp add: s)
    then show ?thesis
      unfolding parse_loop [OF assms(1), of vs pfx "s @ rest"] Some r by simp
  qed
qed

lemma chain_binary:
  assumes "(tok, op) \<in> set (ops l)" and "chain vs pfx l s a" and "spaces w"
    and "sound vs pfx (operand l) s' b" and "starts (operand l) s'"
  shows "chain vs pfx l (s @ w @ tok @ s') (Bin op a b)"
  unfolding chain_def
proof (intro allI impI)
  fix rest
  assume f: "follow (operand l) rest"
  have ne: "ops l \<noteq> []" using assms(1) by auto
  note t = skipWs_tok [OF assms(1,3), of "s' @ rest"]
  from assms(2) t(2) have c: "case sem vs a of
          None \<Rightarrow> isl (parse_at l vs pfx (s @ w @ tok @ s' @ rest))
        | Some v \<Rightarrow> parse_at l vs pfx (s @ w @ tok @ s' @ rest)
                    = loop_at l vs pfx v (w @ tok @ s' @ rest)"
    by (simp add: chain_def)
  note o = soundD [OF assms(4) f]
  show "case sem vs (Bin op a b) of
          None \<Rightarrow> isl (parse_at l vs pfx ((s @ w @ tok @ s') @ rest))
        | Some v \<Rightarrow> parse_at l vs pfx ((s @ w @ tok @ s') @ rest) = loop_at l vs pfx v rest"
  proof (cases "sem vs a")
    case None
    with c show ?thesis by simp
  next
    case (Some v)
    with c have "parse_at l vs pfx (s @ w @ tok @ s' @ rest)
        = loop_at l vs pfx v (w @ tok @ s' @ rest)" by simp
    also have "\<dots> = loop_at l vs pfx v (tok @ s' @ rest)"
      using loop_skipWs [OF ne, of vs pfx v "w @ tok @ s' @ rest"] by (simp add: t(1))
    also have "\<dots> = (case parse_at (operand l) vs pfx (s' @ rest) of
          Inl e \<Rightarrow> Inl e
        | Inr (u, r2) \<Rightarrow> loop_at l vs pfx (apply_binop op v u) r2)"
      using assms(1) starts_not_eq [OF assms(5)] by (rule loop_step)
    finally have p: "parse_at l vs pfx (s @ w @ tok @ s' @ rest) =
        (case parse_at (operand l) vs pfx (s' @ rest) of
          Inl e \<Rightarrow> Inl e
        | Inr (u, r2) \<Rightarrow> loop_at l vs pfx (apply_binop op v u) r2)" .
    show ?thesis
    proof (cases "sem vs b")
      case None
      with o have "isl (parse_at (operand l) vs pfx (s' @ rest))" by (simp add: ok_def)
      then show ?thesis using Some None by (auto simp: p isl_def)
    next
      case (Some u)
      with o obtain r' where r: "parse_at (operand l) vs pfx (s' @ rest) = Inr (u, r')"
        and s: "skipWs r' = skipWs rest" by (auto simp: ok_def)
      have "loop_at l vs pfx (apply_binop op v u) r' = loop_at l vs pfx (apply_binop op v u) rest"
        using loop_skipWs [OF ne, of vs pfx _ r'] loop_skipWs [OF ne, of vs pfx _ rest]
        by (simp add: s)
      then show ?thesis using \<open>sem vs a = Some v\<close> Some by (simp add: p r)
    qed
  qed
qed

lemma identifier_before_paren:
  assumes "identifier_text f" and "spaces w1"
  shows "\<exists>c r'. f @ w1 @ ''('' @ t = c # r' \<and> (isalpha c \<or> c = CHR ''_'')
           \<and> c # takeWhile isword r' = f
           \<and> skipWs (dropWhile isword r') = CHR ''('' # t"
proof -
  have e: "token_end (w1 @ ''('' @ t)"
  proof (cases w1)
    case Nil
    then show ?thesis by (simp add: token_end_def isword_def isalnum_def isalpha_def isdigit_def)
  next
    case (Cons d w')
    with assms(2) have "isspace d" by (simp add: spaces_def)
    then show ?thesis
      by (auto simp: Cons token_end_def isword_def isalnum_def isalpha_def isdigit_def
          isspace_def Let_def)
  qed
  from parseIdentifier_text [OF assms(1) e]
  obtain c r' where x: "f @ w1 @ ''('' @ t = c # r'" and c: "isalpha c \<or> c = CHR ''_''"
    and t: "c # takeWhile isword r' = f" and d: "dropWhile isword r' = w1 @ ''('' @ t" by auto
  have "skipWs (dropWhile isword r') = CHR ''('' # t"
    unfolding d skipWs_spaces [OF assms(2)] by (simp add: skipWs_op)
  with x c t show ?thesis by blast
qed

lemma sound_call0:
  assumes "spaces w" and "identifier_text f" and "spaces w1" and "spaces w2"
  shows "sound vs pfx Primary (w @ f @ w1 @ ''('' @ w2 @ '')'') (Call f [])"
  unfolding sound_def
proof (intro allI impI)
  fix rest
  assume "follow Primary rest"
  from identifier_before_paren [OF assms(2,3), of "w2 @ '')'' @ rest"]
  obtain c r' where x: "f @ w1 @ ''('' @ w2 @ '')'' @ rest = c # r'"
    and c: "isalpha c \<or> c = CHR ''_''"
    and t: "c # takeWhile isword r' = f"
    and d: "skipWs (dropWhile isword r') = CHR ''('' # w2 @ '')'' @ rest" by auto
  have ns: "\<not> isspace c" "c \<noteq> CHR ''(''" using isalpha_other [OF c] by simp_all
  have k: "skipWs ((w @ f @ w1 @ ''('' @ w2 @ '')'') @ rest) = c # r'"
    using ns x by (simp add: skipWs_spaces [OF assms(1)] skipWs_nonspace)
  have k2: "skipWs (w2 @ CHR '')'' # rest) = CHR '')'' # rest"
    using skipWs_spaces [OF assms(4), of "CHR '')'' # rest"] by (simp add: skipWs_op)
  have p: "parse_at Primary vs pfx ((w @ f @ w1 @ ''('' @ w2 @ '')'') @ rest) =
      (case callFunction pfx rest f [] of Inl e \<Rightarrow> Inl e | Inr v \<Rightarrow> Inr (v, rest))"
    unfolding parse_at.simps primary_Cons [OF k] d t using c ns by (simp add: k2)
  show "ok (parse_at Primary vs pfx ((w @ f @ w1 @ ''('' @ w2 @ '')'') @ rest))
          (sem vs (Call f [])) rest"
  proof (cases "builtin f []")
    case None
    from callFunction_builtin(2) [OF this, of pfx rest] show ?thesis
      unfolding p using None by (auto simp: ok_def isl_def)
  next
    case (Some v)
    then have "callFunction pfx rest f [] = Inr v"
      using callFunction_builtin(1) [of pfx rest f "[]"] by simp
    then show ?thesis unfolding p using Some by (simp add: ok_def)
  qed
qed

lemma sound_call:
  assumes "spaces w" and "identifier_text f" and "spaces w1"
    and "args_sound vs pfx t as" and "starts Disj t"
  shows "sound vs pfx Primary (w @ f @ w1 @ ''('' @ t) (Call f as)"
  unfolding sound_def
proof (intro allI impI)
  fix rest
  assume "follow Primary rest"
  from identifier_before_paren [OF assms(2,3), of "t @ rest"]
  obtain c r' where x: "f @ w1 @ ''('' @ t @ rest = c # r'"
    and c: "isalpha c \<or> c = CHR ''_''"
    and t: "c # takeWhile isword r' = f"
    and d: "skipWs (dropWhile isword r') = CHR ''('' # t @ rest" by auto
  have ns: "\<not> isspace c" "c \<noteq> CHR ''(''" using isalpha_other [OF c] by simp_all
  have k: "skipWs ((w @ f @ w1 @ ''('' @ t) @ rest) = c # r'"
    using ns x by (simp add: skipWs_spaces [OF assms(1)] skipWs_nonspace)
  from assms(5) obtain y ys where y: "skipWs t = y # ys" and y': "y \<noteq> CHR '')''"
    using pstart_other by (cases "skipWs t") (auto simp: starts_def)
  then have k2: "skipWs (t @ rest) = y # ys @ rest" by (simp add: skipWs_append)
  have "call_args vs pfx [] (y # ys @ rest) = call_args vs pfx [] (t @ rest)"
    using call_args_skipWs [of vs pfx "[]" "t @ rest"] by (simp add: k2)
  then have p: "parse_at Primary vs pfx ((w @ f @ w1 @ ''('' @ t) @ rest) =
      (case call_args vs pfx [] (t @ rest) of
         Inl e \<Rightarrow> Inl e
       | Inr (args, r8) \<Rightarrow>
           (case callFunction pfx r8 f args of Inl e \<Rightarrow> Inl e | Inr v \<Rightarrow> Inr (v, r8)))"
    unfolding parse_at.simps primary_Cons [OF k] d t using c ns y' by (simp add: k2)
  from assms(4) have a: "case sem_list vs as of
           None \<Rightarrow> isl (call_args vs pfx [] (t @ rest))
         | Some vals \<Rightarrow> call_args vs pfx [] (t @ rest) = Inr ([] @ vals, rest)"
    unfolding args_sound_def by blast
  show "ok (parse_at Primary vs pfx ((w @ f @ w1 @ ''('' @ t) @ rest)) (sem vs (Call f as)) rest"
  proof (cases "sem_list vs as")
    case None
    with a show ?thesis unfolding p by (auto simp: ok_def isl_def)
  next
    case (Some vals)
    with a have r: "call_args vs pfx [] (t @ rest) = Inr (vals, rest)" by simp
    show ?thesis
    proof (cases "builtin f vals")
      case None
      from callFunction_builtin(2) [OF this, of pfx rest] show ?thesis
        unfolding p r using None Some by (auto simp: ok_def isl_def)
    next
      case (Some v)
      then have "callFunction pfx rest f vals = Inr v"
        using callFunction_builtin(1) [of pfx rest f vals] by simp
      then show ?thesis unfolding p r using Some \<open>sem_list vs as = Some vals\<close> by (simp add: ok_def)
    qed
  qed
qed

lemma args_sound_last:
  assumes "sound vs pfx Disj s a" and "spaces w"
  shows "args_sound vs pfx (s @ w @ '')'') [a]"
  unfolding args_sound_def
proof (intro allI)
  fix acc rest
  have k2: "skipWs (w @ CHR '')'' # rest) = CHR '')'' # rest"
    using skipWs_spaces [OF assms(2), of "CHR '')'' # rest"] by (simp add: skipWs_op)
  have "follow Disj (w @ '')'' @ rest)" by (simp add: follow_def k2)
  note o = soundD [OF assms(1) this]
  note p = call_args_cases [of vs pfx acc "(s @ w @ '')'') @ rest", unfolded expr_Disj]
  show "case sem_list vs [a] of
          None \<Rightarrow> isl (call_args vs pfx acc ((s @ w @ '')'') @ rest))
        | Some vals \<Rightarrow> call_args vs pfx acc ((s @ w @ '')'') @ rest) = Inr (acc @ vals, rest)"
  proof (cases "sem vs a")
    case None
    with o have "isl (parse_at Disj vs pfx (s @ w @ '')'' @ rest))" by (simp add: ok_def)
    then show ?thesis unfolding p using None by (auto simp: isl_def)
  next
    case (Some v)
    with o obtain r1 where r: "parse_at Disj vs pfx (s @ w @ '')'' @ rest) = Inr (v, r1)"
      and s: "skipWs r1 = CHR '')'' # rest" by (auto simp: ok_def k2)
    show ?thesis unfolding p using Some r s by simp
  qed
qed

lemma args_sound_next:
  assumes "sound vs pfx Disj s a" and "spaces w" and "args_sound vs pfx t as"
  shows "args_sound vs pfx (s @ w @ '','' @ t) (a # as)"
  unfolding args_sound_def
proof (intro allI)
  fix acc rest
  have k2: "skipWs (w @ CHR '','' # t @ rest) = CHR '','' # t @ rest"
    using skipWs_spaces [OF assms(2), of "CHR '','' # t @ rest"] by (simp add: skipWs_op)
  have "follow Disj (w @ '','' @ t @ rest)" by (simp add: follow_def k2)
  note o = soundD [OF assms(1) this]
  note p = call_args_cases [of vs pfx acc "(s @ w @ '','' @ t) @ rest", unfolded expr_Disj]
  show "case sem_list vs (a # as) of
          None \<Rightarrow> isl (call_args vs pfx acc ((s @ w @ '','' @ t) @ rest))
        | Some vals \<Rightarrow> call_args vs pfx acc ((s @ w @ '','' @ t) @ rest) = Inr (acc @ vals, rest)"
  proof (cases "sem vs a")
    case None
    with o have "isl (parse_at Disj vs pfx (s @ w @ '','' @ t @ rest))" by (simp add: ok_def)
    then show ?thesis unfolding p using None by (auto simp: isl_def)
  next
    case (Some v)
    with o obtain r1 where r: "parse_at Disj vs pfx (s @ w @ '','' @ t @ rest) = Inr (v, r1)"
      and s: "skipWs r1 = CHR '','' # t @ rest" by (auto simp: ok_def k2)
    from assms(3) have a: "case sem_list vs as of
           None \<Rightarrow> isl (call_args vs pfx (acc @ [v]) (t @ rest))
         | Some vals \<Rightarrow> call_args vs pfx (acc @ [v]) (t @ rest) = Inr ((acc @ [v]) @ vals, rest)"
      unfolding args_sound_def by blast
    have c: "call_args vs pfx acc ((s @ w @ '','' @ t) @ rest)
        = call_args vs pfx (acc @ [v]) (t @ rest)"
      unfolding p using r s by simp
    show ?thesis unfolding c using a Some by (cases "sem_list vs as") simp_all
  qed
qed

text \<open>The parser on every phrase of the grammar.\<close>

lemma G_sound: "G l s a \<Longrightarrow> sound vs pfx l s a \<and> (ops l \<noteq> [] \<longrightarrow> chain vs pfx l s a)"
  and G_args_sound: "G_args t as \<Longrightarrow> args_sound vs pfx t as"
proof (induct rule: G_G_args.inducts)
  case (G_lit w m ex v)
  then show ?case by (simp add: sound_lit)
next
  case (G_var w x)
  then show ?case by (simp add: sound_var)
next
  case (G_paren w s a w')
  then have "sound vs pfx Primary (w @ ''('' @ s @ w' @ '')'') a"
    by (intro sound_paren) (simp_all)
  then show ?case by simp
next
  case (G_call0 w f w1 w2)
  then have "sound vs pfx Primary (w @ f @ w1 @ ''('' @ w2 @ '')'') (Call f [])"
    by (intro sound_call0) (simp_all)
  then show ?case by simp
next
  case (G_call w f w1 t as)
  then have "sound vs pfx Primary (w @ f @ w1 @ ''('' @ t) (Call f as)"
    by (intro sound_call) (simp_all add: G_args_starts)
  then show ?case by simp
next
  case (G_last_arg s a w)
  then have "args_sound vs pfx (s @ w @ '')'') [a]"
    by (intro args_sound_last) (simp_all)
  then show ?case by simp
next
  case (G_next_arg s a w t as)
  then have "args_sound vs pfx (s @ w @ '','' @ t) (a # as)"
    by (intro args_sound_next) (simp_all)
  then show ?case by simp
next
  case (G_primary s a)
  then show ?case by (simp add: sound_primary G_starts)
next
  case (G_plus w s a)
  then have "sound vs pfx Unary (w @ ''+'' @ s) (UPlus a)"
    by (intro sound_plus) (simp_all)
  then show ?case by simp
next
  case (G_minus w s a)
  then have "sound vs pfx Unary (w @ ''-'' @ s) (UMinus a)"
    by (intro sound_minus) (simp_all)
  then show ?case by simp
next
  case (G_negation w s a)
  then have "sound vs pfx Unary (w @ ''!'' @ s) (UNot a)"
    by (intro sound_negation) (simp_all)
  then show ?case by simp
next
  case (G_operand l s a)
  then have "chain vs pfx l s a" by (simp add: chain_operand)
  with G_operand(1) show ?case by (simp add: chain_sound)
next
  case (G_binary tok op l s a w s' b)
  then have ne: "ops l \<noteq> []" by auto
  from G_binary ne have "chain vs pfx l (s @ w @ tok @ s') (Bin op a b)"
    by (intro chain_binary) (simp_all add: G_starts)
  with ne show ?case by (simp add: chain_sound)
qed

lemma evalExpr_sound:
  assumes "G Disj s a" and "spaces w"
  shows "case sem vs a of
           None \<Rightarrow> isl (evalExpr vs (s @ w) pfx)
         | Some v \<Rightarrow> evalExpr vs (s @ w) pfx = Inr v"
proof -
  have k: "skipWs w = []" using skipWs_spaces [OF assms(2), of "[]"] by simp
  then have "follow Disj w" by (simp add: follow_def)
  with G_sound [OF assms(1), of vs pfx]
  have o: "ok (parse_at Disj vs pfx (s @ w)) (sem vs a) w" by (simp add: sound_def)
  show ?thesis
  proof (cases "sem vs a")
    case None
    with o have "isl (parse_at Disj vs pfx (s @ w))" by (simp add: ok_def)
    then show ?thesis using None by (auto simp: evalExpr_def eval_def expr.simps isl_def)
  next
    case (Some v)
    with o obtain r' where "parse_at Disj vs pfx (s @ w) = Inr (v, r')" and "skipWs r' = []"
      by (auto simp: ok_def k)
    then show ?thesis using Some by (simp add: evalExpr_def eval_def expr.simps)
  qed
qed

section \<open>Precedence and associativity\<close>



text \<open>A phrase of a level is a phrase of the levels of lower precedence.\<close>

lemma G_up:
  "G Primary s a \<Longrightarrow> G Unary s a"
  "G Unary s a \<Longrightarrow> G Factor s a"
  "G Factor s a \<Longrightarrow> G Term s a"
  "G Term s a \<Longrightarrow> G Comparison s a"
  "G Comparison s a \<Longrightarrow> G Equality s a"
  "G Equality s a \<Longrightarrow> G Conj s a"
  "G Conj s a \<Longrightarrow> G Disj s a"
  by (rule G_primary, assumption) (rule G_operand, simp, simp)+

fun rank :: "level \<Rightarrow> nat" where
  "rank Primary = 0"
| "rank Unary = 1"
| "rank Factor = 2"
| "rank Term = 3"
| "rank Comparison = 4"
| "rank Equality = 5"
| "rank Conj = 6"
| "rank Disj = 7"

lemma G_lift:
  assumes "rank l \<le> rank l'" and "G l s a"
  shows "G l' s a"
proof -
  have p: "G Primary s a" if "rank l \<le> 0"
    using that assms(2) by (cases l rule: level.exhaust) simp_all
  have u: "G Unary s a" if "rank l \<le> 1"
    using that assms(2) by (cases l) (simp_all add: G_up)
  have f: "G Factor s a" if "rank l \<le> 2"
    using that assms(2) u by (cases l) (simp_all add: G_up)
  have t: "G Term s a" if "rank l \<le> 3"
    using that assms(2) f by (cases l) (simp_all add: G_up)
  have c: "G Comparison s a" if "rank l \<le> 4"
    using that assms(2) t by (cases l) (simp_all add: G_up)
  have e: "G Equality s a" if "rank l \<le> 5"
    using that assms(2) c by (cases l) (simp_all add: G_up)
  have j: "G Conj s a" if "rank l \<le> 6"
    using that assms(2) e by (cases l) (simp_all add: G_up)
  have d: "G Disj s a"
    using assms(2) j by (cases l rule: level.exhaust) (simp_all add: G_up)
  show ?thesis
    using assms(1) p u f t c e j d by (cases l') simp_all
qed

lemma G_number:
  assumes "spaces w" and "mantissa_text m" and "stod m = Inr v"
  shows "G Primary (w @ m) (Lit v)"
  using G_lit [OF assms(1,2), of "[]" v] assms(3) by (simp add: exponent_text_def)



section \<open>Comparisons and logical operators\<close>

fun boolean_root :: "ast \<Rightarrow> bool" where
  "boolean_root (UNot a) = True"
| "boolean_root (Bin op a b) =
     (op = OGe \<or> op = OLe \<or> op = OGt \<or> op = OLt \<or> op = OEq \<or> op = ONe \<or> op = OAnd \<or> op = OOr)"
| "boolean_root _ = False"

lemma boolean_root_sem:
  "boolean_root a \<Longrightarrow> sem vs a = None \<or> sem vs a = Some (Num 0) \<or> sem vs a = Some (Num 1)"
  by (cases a) (auto simp: truth_def split: option.splits)

text \<open>
  C5. Let \<open>s\<close> be a phrase of the grammar whose tree has at its root a comparison, an
  equality test, a logical connective or a negation. Then the evaluation of \<open>s\<close> fails
  or returns exactly 0 or exactly 1.
\<close>

theorem C5_boolean_result:
  assumes "G Disj s a" and "boolean_root a" and "spaces w"
  shows "isl (evalExpr vs (s @ w) pfx)
     \<or> evalExpr vs (s @ w) pfx = Inr (Num 0) \<or> evalExpr vs (s @ w) pfx = Inr (Num 1)"
  using evalExpr_sound [OF assms(1,3), of vs pfx] boolean_root_sem [OF assms(2), of vs]
  by auto

theorem C5_witness:
  "evalExpr Map.empty ''5 > 3 && 2 < 1'' ''E: '' = Inr (Num 0)
   \<and> evalExpr Map.empty ''5 > 3 || 2 < 1'' ''E: '' = Inr (Num 1)
   \<and> (isl (evalExpr [''x'' \<mapsto> Num 7] ''!x'' ''E: '')
        \<or> evalExpr [''x'' \<mapsto> Num 7] ''!x'' ''E: '' = Inr (Num 0)
        \<or> evalExpr [''x'' \<mapsto> Num 7] ''!x'' ''E: '' = Inr (Num 1))"
proof -
  have sp: "spaces []" "spaces '' ''" by (simp_all add: spaces_def isspace_def)
  have m: "mantissa_text ''5''" "mantissa_text ''3''" "mantissa_text ''2''" "mantissa_text ''1''"
    by (simp_all add: mantissa_text_def isdigit_def)
  have v: "stod ''5'' = Inr (Num 5)" "stod ''3'' = Inr (Num 3)" "stod ''2'' = Inr (Num 2)"
    "stod ''1'' = Inr (Num 1)"
    by (simp_all add: lex_defs)
  note n5 = G_number [OF sp(1) m(1) v(1)] and n3 = G_number [OF sp(2) m(2) v(2)]
  note n2 = G_number [OF sp(2) m(3) v(3)] and n1 = G_number [OF sp(2) m(4) v(4)]
  have c1: "G Comparison (([] @ ''5'') @ '' '' @ ''>'' @ ('' '' @ ''3''))
      (Bin OGt (Lit (Num 5)) (Lit (Num 3)))"
    by (rule G_binary [OF _ G_lift [OF _ n5] sp(2) G_lift [OF _ n3]]) simp_all
  have c2: "G Comparison (('' '' @ ''2'') @ '' '' @ ''<'' @ ('' '' @ ''1''))
      (Bin OLt (Lit (Num 2)) (Lit (Num 1)))"
    by (rule G_binary [OF _ G_lift [OF _ n2] sp(2) G_lift [OF _ n1]]) simp_all
  have "G Conj ((([] @ ''5'') @ '' '' @ ''>'' @ ('' '' @ ''3'')) @ [] @ ''&&''
        @ (('' '' @ ''2'') @ '' '' @ ''<'' @ ('' '' @ ''1'')))
      (Bin OAnd (Bin OGt (Lit (Num 5)) (Lit (Num 3))) (Bin OLt (Lit (Num 2)) (Lit (Num 1))))"
    by (rule G_binary [OF _ G_lift [OF _ c1] sp(1) G_lift [OF _ c2]]) simp_all
  then have g1: "G Disj ((([] @ ''5'') @ '' '' @ ''>'' @ ('' '' @ ''3'')) @ [] @ ''&&''
        @ (('' '' @ ''2'') @ '' '' @ ''<'' @ ('' '' @ ''1'')))
      (Bin OAnd (Bin OGt (Lit (Num 5)) (Lit (Num 3))) (Bin OLt (Lit (Num 2)) (Lit (Num 1))))"
    by (rule G_lift [rotated]) simp
  have g2: "G Disj ((([] @ ''5'') @ '' '' @ ''>'' @ ('' '' @ ''3'')) @ [] @ ''||''
        @ (('' '' @ ''2'') @ '' '' @ ''<'' @ ('' '' @ ''1'')))
      (Bin OOr (Bin OGt (Lit (Num 5)) (Lit (Num 3))) (Bin OLt (Lit (Num 2)) (Lit (Num 1))))"
    by (rule G_binary [OF _ G_lift [OF _ c1] sp(1) G_lift [OF _ c2]]) simp_all
  have "identifier_text ''x''" by (simp add: identifier_text_def isalpha_def)
  with sp(1) have "G Primary ([] @ ''x'') (Var ''x'')" by (rule G_var)
  then have "G Unary ([] @ ''x'') (Var ''x'')" by (rule G_primary)
  with sp(1) have "G Unary ([] @ ''!'' @ [] @ ''x'') (UNot (Var ''x''))" by (rule G_negation)
  then have g3: "G Disj ([] @ ''!'' @ [] @ ''x'') (UNot (Var ''x''))"
    by (rule G_lift [rotated]) simp
  have e: "evalExpr Map.empty ''5 > 3 && 2 < 1'' ''E: '' = Inr (Num 0)"
    "evalExpr Map.empty ''5 > 3 || 2 < 1'' ''E: '' = Inr (Num 1)"
    by (simp_all add: parser_simps lex_defs)
  show ?thesis
    using C5_boolean_result [OF g1 _ sp(1), of Map.empty "''E: ''"]
      C5_boolean_result [OF g2 _ sp(1), of Map.empty "''E: ''"]
      C5_boolean_result [OF g3 _ sp(1), of "[''x'' \<mapsto> Num 7]" "''E: ''"]
    by (simp add: e)
qed

end
